theory Spec2Isabelle
  imports Complex_Main "HOL-Library.Product_Lexorder"
begin

section \<open>SotN-Randomizer: relic search orchestration and solution rendering (util.js)\<close>

text \<open>
  JavaScript exceptions are values: every function of the source that can throw returns
  a sum whose left injection is the thrown value.
\<close>

subsection \<open>Values thrown\<close>

text \<open>
  A JSON value found under the key \<open>error\<close> of a worker message. An object keeps the
  three fields the listener reads (\<open>name\<close>, \<open>message\<close>, \<open>stack\<close>), each possibly absent.
\<close>

datatype jsval =
    JNull
  | JBool bool
  | JNum int
  | JStr string
  | JObj "string option" "string option" "string option"

datatype exn =
    TypeError
  | ErrorObject "string option" "string option" "string option"
  | Raw jsval

subsection \<open>workerCountFromCores\<close>

text \<open>
  \<^verbatim>\<open>return Math.max(Math.floor(3 * cores / 4), 1)\<close>
  The argument is \<open>os.cpus().length\<close>, an integer, for which the product and the
  quotient by 4 are exact in doubles; on integers the floor of the quotient is \<open>div\<close>,
  which rounds towards minus infinity as \<open>Math.floor\<close> does.
\<close>

definition workerCountFromCores :: "int \<Rightarrow> int" where
  "workerCountFromCores cores = max ((3 * cores) div 4) 1"

subsection \<open>collapseSolution\<close>

text \<open>
  The input of \<open>collapseSolution\<close> is what \<open>simplifySolution\<close> builds: an object with
  \<open>item\<close> and, when the node has a solution, the array \<open>solution\<close> of its sub-nodes.
  The output has the array \<open>items\<close> and, optionally, the array \<open>solution\<close>.
\<close>

datatype snode = SNode (s_item: string) (s_solution: "snode list option")

datatype cnode = CNode (c_items: "string list") (c_solution: "cnode list option")

text \<open>
  The \<open>while\<close> loop walks down as long as the current node has a solution of length one,
  pushing the items it leaves; \<open>collapse_from items curr\<close> is the function from the loop
  head on, with the array \<open>items\<close> built so far.
\<close>

fun collapse_from :: "string list \<Rightarrow> snode \<Rightarrow> cnode" where
  "collapse_from items (SNode it None) = CNode (items @ [it]) None"
| "collapse_from items (SNode it (Some [])) = CNode (items @ [it]) (Some [])"
| "collapse_from items (SNode it (Some [c])) = collapse_from (items @ [it]) c"
| "collapse_from items (SNode it (Some (c # d # cs))) =
     CNode (items @ [it]) (Some (map (collapse_from []) (c # d # cs)))"

definition collapseSolution :: "snode \<Rightarrow> cnode" where
  "collapseSolution node = collapse_from [] node"

text \<open>A collapsed tree as it should be: no node without items, no node with exactly
  one sub-node.\<close>

fun collapsed_ok :: "cnode \<Rightarrow> bool" where
  "collapsed_ok (CNode its sol) =
     (its \<noteq> [] \<and>
      (case sol of None \<Rightarrow> True
       | Some cs \<Rightarrow> length cs \<noteq> 1 \<and> (\<forall>c \<in> set cs. collapsed_ok c)))"

text \<open>The items met on the chain of single-element solutions that starts at a node.\<close>

fun chain_items :: "snode \<Rightarrow> string list" where
  "chain_items (SNode it (Some [c])) = it # chain_items c"
| "chain_items (SNode it sol) = [it]"

text \<open>The node at which that chain ends: the first node on it whose solution is absent or
  has not exactly one element.\<close>

fun chain_end :: "snode \<Rightarrow> snode" where
  "chain_end (SNode it (Some [c])) = chain_end c"
| "chain_end (SNode it sol) = SNode it sol"

text \<open>
  What the result should be, node by node: a node of the result stands for an input node
  when its items are the items of the chain that starts there, and its sub-nodes stand,
  one for one and in order, for the sub-nodes of the node that ends the chain (it has a
  solution exactly when that node has one).
\<close>

fun merged :: "snode \<Rightarrow> cnode \<Rightarrow> bool" where
  "merged n (CNode its sol) =
     (its = chain_items n \<and>
      (case sol of
         None \<Rightarrow> s_solution (chain_end n) = None
       | Some cs \<Rightarrow>
           (case s_solution (chain_end n) of
              None \<Rightarrow> False
            | Some ns \<Rightarrow> length ns \<noteq> 1 \<and> list_all2 merged ns cs)))"

text \<open>All tokens of a tree, a node before its sub-nodes, sub-nodes from left to right.\<close>

fun s_tokens :: "snode \<Rightarrow> string list" where
  "s_tokens (SNode it sol) =
     it # (case sol of None \<Rightarrow> [] | Some cs \<Rightarrow> concat (map s_tokens cs))"

fun c_tokens :: "cnode \<Rightarrow> string list" where
  "c_tokens (CNode its sol) =
     its @ (case sol of None \<Rightarrow> [] | Some cs \<Rightarrow> concat (map c_tokens cs))"

subsection \<open>renderNode\<close>

text \<open>
  The table \<open>relics\<close> is a constant of another module of the repository; it is a
  parameter here. Of a relic only \<open>ability\<close> and \<open>name\<close> are read.
\<close>

record relic =
  ability :: string
  name :: string

text \<open>\<^verbatim>\<open>relics.filter(function(relic) { return relic.ability === ability }).pop()\<close>:
  the last relic with that ability, \<open>undefined\<close> (here \<open>None\<close>) when there is none.\<close>

definition relicFromAbility :: "relic list \<Rightarrow> string \<Rightarrow> relic option" where
  "relicFromAbility relics a =
     (case filter (\<lambda>relic. ability relic = a) relics of
        [] \<Rightarrow> None
      | r # rs \<Rightarrow> Some (last (r # rs)))"

text \<open>\<^verbatim>\<open>node.items.map(function(ability) { return relicFromAbility(ability).name })\<close>:
  reading \<open>name\<close> of \<open>undefined\<close> throws a TypeError.\<close>

fun relic_names :: "relic list \<Rightarrow> string list \<Rightarrow> exn + string list" where
  "relic_names relics [] = Inr []"
| "relic_names relics (a # as) =
     (case relicFromAbility relics a of
        None \<Rightarrow> Inl TypeError
      | Some r \<Rightarrow>
          (case relic_names relics as of
             Inl e \<Rightarrow> Inl e
           | Inr ns \<Rightarrow> Inr (name r # ns)))"

text \<open>\<open>Array.prototype.join\<close> on an array of strings.\<close>

fun join :: "string \<Rightarrow> string list \<Rightarrow> string" where
  "join sep [] = []"
| "join sep [x] = x"
| "join sep (x # y # ys) = x @ sep @ join sep (y # ys)"

text \<open>\<^verbatim>\<open>Array(level).fill(' ').join('')\<close>; the level is never negative. Lengths of
  strings are counted in characters, as the source counts them for names in ASCII.\<close>

definition indent :: "nat \<Rightarrow> string" where
  "indent level = replicate level (CHR '' '')"

text \<open>
  \<open>renderNode\<close> maps itself over the sub-nodes and appends their lines in order;
  \<open>render_nodes\<close> is the map of \<open>renderNode.bind(null, level, sub)\<close> over an array of
  nodes followed by the \<open>reduce\<close> that concatenates the lines.
\<close>

fun renderNode :: "relic list \<Rightarrow> nat \<Rightarrow> bool \<Rightarrow> cnode \<Rightarrow> exn + string list"
  and render_nodes :: "relic list \<Rightarrow> nat \<Rightarrow> bool \<Rightarrow> cnode list \<Rightarrow> exn + string list" where
  "renderNode relics indentLevel sub (CNode items sol) =
     (case relic_names relics items of
        Inl e \<Rightarrow> Inl e
      | Inr names \<Rightarrow>
          (let line = indent indentLevel @ (if sub then ''^ '' else []) @ join '' < '' names in
           case sol of
             None \<Rightarrow> Inr [line]
           | Some nodes \<Rightarrow>
               (let level = indentLevel + (if sub then 2 else 0)
                      + length (join ''   '' (butlast names @ [[]])) in
                case render_nodes relics level True nodes of
                  Inl e \<Rightarrow> Inl e
                | Inr ls \<Rightarrow> Inr (line # ls))))"
| "render_nodes relics level sub [] = Inr []"
| "render_nodes relics level sub (n # ns) =
     (case renderNode relics level sub n of
        Inl e \<Rightarrow> Inl e
      | Inr l \<Rightarrow>
          (case render_nodes relics level sub ns of
             Inl e \<Rightarrow> Inl e
           | Inr ls \<Rightarrow> Inr (l @ ls)))"

text \<open>
  The layout as the specification words it, to compare \<open>renderNode\<close> with. \<open>name_of\<close> is
  the name of the relic of a token. \<open>last_token_column\<close> is the column at which the last
  name starts in the names joined by \<open>" < "\<close>: the point of the chain at which the
  alternatives diverge. \<open>spec_lines\<close> prints a node on one line, after the indentation and,
  for an alternative, after \<open>"^ "\<close>, and below it every sub-node as an alternative, all at
  the same indentation: that of the node, 2 more when the node is itself an alternative,
  and the column of its last name.
\<close>

definition name_of :: "relic list \<Rightarrow> string \<Rightarrow> string" where
  "name_of relics a = (case relicFromAbility relics a of None \<Rightarrow> [] | Some r \<Rightarrow> name r)"

definition last_token_column :: "string list \<Rightarrow> nat" where
  "last_token_column names =
     (if length names \<le> 1 then 0 else length (join '' < '' (butlast names)) + 3)"

fun spec_lines :: "(string \<Rightarrow> string) \<Rightarrow> nat \<Rightarrow> bool \<Rightarrow> cnode \<Rightarrow> string list" where
  "spec_lines nm level sub (CNode items sol) =
     (replicate level (CHR '' '') @ (if sub then ''^ '' else []) @ join '' < '' (map nm items))
     # (case sol of
          None \<Rightarrow> []
        | Some nodes \<Rightarrow>
            concat (map (spec_lines nm
                           (level + (if sub then 2 else 0) + last_token_column (map nm items)) True)
                        nodes))"

subsection \<open>randomizeRelics: the worker messages\<close>

text \<open>
  A worker message after \<open>JSON.parse\<close>. Of the object the code reads \<open>error\<close> (the key
  may be absent: \<open>None\<close>), \<open>done\<close> (only its truthiness) and \<open>nonce\<close> (a number, or
  absent); \<open>r_data\<close> stands for the rest of the message.
\<close>

record worker_result =
  r_error :: "jsval option"
  r_done :: bool
  r_nonce :: "int option"
  r_data :: string

fun truthy :: "jsval \<Rightarrow> bool" where
  "truthy JNull = False"
| "truthy (JBool b) = b"
| "truthy (JNum n) = (n \<noteq> 0)"
| "truthy (JStr s) = (s \<noteq> [])"
| "truthy (JObj n m st) = True"

fun is_boolean :: "jsval \<Rightarrow> bool" where
  "is_boolean (JBool b) = True"
| "is_boolean v = False"

text \<open>\<^verbatim>\<open>result.error && typeof(result.error) !== 'boolean'\<close>\<close>

definition error_thrown :: "worker_result \<Rightarrow> bool" where
  "error_thrown result =
     (case r_error result of None \<Rightarrow> False | Some v \<Rightarrow> truthy v \<and> \<not> is_boolean v)"

text \<open>
  The \<open>Error\<close> the listener builds from \<open>result.error\<close>: its \<open>message\<close>, \<open>name\<close> and
  \<open>stack\<close> are those of the object; a number or a string has none of the three.
\<close>

fun listener_error :: "jsval \<Rightarrow> exn" where
  "listener_error (JObj n m st) = ErrorObject n m st"
| "listener_error v = ErrorObject None None None"

subsection \<open>randomizeRelics: the reduction of the results\<close>

text \<open>\<^verbatim>\<open>'error' in result\<close>\<close>

definition has_error :: "worker_result \<Rightarrow> bool" where
  "has_error result = (r_error result \<noteq> None)"

text \<open>\<open><\<close> on two nonces: false as soon as one of them is \<open>undefined\<close>.\<close>

fun nonce_lt :: "int option \<Rightarrow> int option \<Rightarrow> bool" where
  "nonce_lt (Some a) (Some b) = (a < b)"
| "nonce_lt a b = False"

text \<open>
  The function given to \<open>results.reduce\<close>. Its first test \<open>!candidate\<close> is false for
  every object, and the messages are objects.
  \<^verbatim>\<open>
  if (!candidate || 'error' in candidate) { return result }
  if ('error' in result || candidate.nonce < result.nonce) { return candidate }
  return result
  \<close>
\<close>

definition pick :: "worker_result \<Rightarrow> worker_result \<Rightarrow> worker_result" where
  "pick candidate result =
     (if has_error candidate then result
      else if has_error result \<or> nonce_lt (r_nonce candidate) (r_nonce result) then candidate
      else result)"

text \<open>
  The function given to \<open>Promise.all(promises).then\<close>. \<open>reduce\<close> without an initial value
  starts from the first result and throws a TypeError on an empty array; then
  \<^verbatim>\<open>if (result.error) { throw result.error }  return result\<close>
\<close>

definition randomizeRelics_then :: "worker_result list \<Rightarrow> exn + worker_result" where
  "randomizeRelics_then results =
     (case results of
        [] \<Rightarrow> Inl TypeError
      | r # rs \<Rightarrow>
          (let result = foldl pick r rs in
           case r_error result of
             None \<Rightarrow> Inr result
           | Some v \<Rightarrow> if truthy v then Inl (Raw v) else Inr result))"

subsection \<open>randomizeRelics: the message listeners\<close>

text \<open>
  What the orchestrator posts to a worker: the url (\<open>loadWorker\<close>), an attempt with its
  nonce, its rounds and whether it is the bootstrap message (which also carries options,
  version, seed and removed, not modelled), or the cancellation.
\<close>

datatype message = Load | Relics int nat bool | Cancel

text \<open>
  The variables the listeners share: the counter \<open>nonce\<close>, \<open>rounds\<close>, the flag \<open>done\<close>,
  the array \<open>running\<close>, and for each worker the state of its promise (\<open>None\<close> while
  pending, the value it was resolved with afterwards). \<open>o_posted\<close> records every
  \<open>worker.postMessage\<close> in order, with the index of the worker.
\<close>

record orchestrator =
  o_nonce :: int
  o_rounds :: nat
  o_done :: bool
  o_running :: "bool list"
  o_promises :: "worker_result option list"
  o_posted :: "(nat \<times> message) list"

definition postMessage :: "nat \<Rightarrow> bool \<Rightarrow> orchestrator \<Rightarrow> orchestrator" where
  "postMessage thread bootstrap s =
     s\<lparr>o_posted := o_posted s @ [(thread, Relics (o_nonce s) (o_rounds s) bootstrap)],
       o_nonce := o_nonce s + 1\<rparr>"

text \<open>One turn of the \<open>for\<close> loop: \<open>loadWorker\<close>, then the promise's executor, which adds
  the listener and posts the bootstrap message.\<close>

definition start_worker :: "nat \<Rightarrow> orchestrator \<Rightarrow> orchestrator" where
  "start_worker i s = postMessage i True (s\<lparr>o_posted := o_posted s @ [(i, Load)]\<rparr>)"

text \<open>The state when \<open>randomizeRelics\<close> returns its promise, for \<open>workers.length = n\<close>;
  \<open>rounds\<close> is 1 when it is \<open>undefined\<close>.\<close>

definition randomizeRelics_start :: "nat \<Rightarrow> int \<Rightarrow> nat option \<Rightarrow> orchestrator" where
  "randomizeRelics_start n nonce rounds =
     fold start_worker [0..<n]
       \<lparr>o_nonce = nonce,
        o_rounds = (case rounds of None \<Rightarrow> 1 | Some r \<Rightarrow> r),
        o_done = False,
        o_running = replicate n True,
        o_promises = replicate n None,
        o_posted = []\<rparr>"

text \<open>\<open>resolve(result)\<close>: only the first resolution of a promise has an effect.\<close>

fun resolve :: "worker_result option \<Rightarrow> worker_result \<Rightarrow> worker_result option" where
  "resolve None result = Some result"
| "resolve (Some r) result = Some r"

text \<open>
  The listener of worker \<open>thread\<close> on a message that \<open>JSON.parse\<close> turned into an
  object; \<open>thread\<close> is the index of a worker, below the length of \<open>promises\<close> and
  \<open>running\<close>. A throw leaves the listener: the promise of that worker stays as it is and
  nothing is posted.
  \<^verbatim>\<open>
  if (result.error && typeof(result.error) !== 'boolean') { ... throw error }
  else if (done || result.done) {
    done = true; resolve(result); running[thread] = false
    worker.postMessage(JSON.stringify({action: ..., cancel: true}))
  } else { postMessage() }
  \<close>
\<close>

definition on_message :: "nat \<Rightarrow> worker_result \<Rightarrow> orchestrator \<Rightarrow> exn + orchestrator" where
  "on_message thread result s =
     (if error_thrown result then Inl (listener_error (the (r_error result)))
      else if o_done s \<or> r_done result then
        Inr (s\<lparr>o_done := True,
               o_promises := (o_promises s)[thread := resolve (o_promises s ! thread) result],
               o_running := (o_running s)[thread := False],
               o_posted := o_posted s @ [(thread, Cancel)]\<rparr>)
      else Inr (postMessage thread False s))"

text \<open>The messages of the workers in the order of their arrival, each with the index of
  its worker. Nothing in \<open>randomizeRelics\<close> catches what a listener throws: the run ends at
  the first listener that throws, with the value thrown.\<close>

fun run :: "(nat \<times> worker_result) list \<Rightarrow> orchestrator \<Rightarrow> exn + orchestrator" where
  "run [] s = Inr s"
| "run ((thread, result) # events) s =
     (case on_message thread result s of
        Inl e \<Rightarrow> Inl e
      | Inr s' \<Rightarrow> run events s')"

text \<open>
  The promise that \<open>randomizeRelics\<close> returns: pending (\<open>None\<close>) until every promise of
  \<open>promises\<close> is resolved, then settled by the function given to \<open>then\<close>.
\<close>

definition randomizeRelics_promise :: "orchestrator \<Rightarrow> (exn + worker_result) option" where
  "randomizeRelics_promise s =
     (if list_all (\<lambda>p. p \<noteq> None) (o_promises s)
      then Some (randomizeRelics_then (map the (o_promises s)))
      else None)"

subsection \<open>minifySolution\<close>

text \<open>
  A node of the proof graph that the search returns: an \<open>item\<close> and, optionally, the
  array \<open>locks\<close> of its alternatives, each alternative (a lock) a collection of nodes
  that \<open>Array.from\<close> turns into an array.
\<close>

datatype node = Node (n_item: string) (n_locks: "node list list option")

text \<open>
  What \<open>minifySolution\<close> builds. A requirement is \<open>{item, depth}\<close> or
  \<open>{item, depth, solution}\<close>; a solution is \<open>{depth, weight, avg, requirements}\<close>, or
  the initial value \<open>{depth: 0, weight: 0}\<close> of the reductions, which has neither \<open>avg\<close>
  nor \<open>requirements\<close>. The numbers \<open>depth\<close> and \<open>weight\<close> are integers; \<open>avg\<close>, the
  quotient of two integers, is kept as the exact rational (the source computes the
  nearest double).
\<close>

datatype requirement =
    Requirement (q_item: string) (q_depth: int) (q_solution: "solution option")
  and solution =
    Initial
  | Solution int int rat "requirement list"

fun depth :: "solution \<Rightarrow> int" where
  "depth Initial = 0"
| "depth (Solution d w a rs) = d"

fun weight :: "solution \<Rightarrow> int" where
  "weight Initial = 0"
| "weight (Solution d w a rs) = w"

fun avg :: "solution \<Rightarrow> rat option" where
  "avg Initial = None"
| "avg (Solution d w a rs) = Some a"

fun requirements :: "solution \<Rightarrow> requirement list option" where
  "requirements Initial = None"
| "requirements (Solution d w a rs) = Some rs"

text \<open>\<open><\<close> on two averages: false as soon as one of them is \<open>undefined\<close>.\<close>

fun avg_lt :: "rat option \<Rightarrow> rat option \<Rightarrow> bool" where
  "avg_lt (Some a) (Some b) = (a < b)"
| "avg_lt a b = False"

text \<open>
  The condition under which \<open>minifySolution\<close> returns the new solution instead of \<open>min\<close>:
  \<^verbatim>\<open>
  min.depth === 0
  || solution.depth < min.depth
  || (solution.depth === min.depth && solution.weight < min.weight)
  || (solution.depth === min.depth && solution.weight === min.weight
      && solution.avg < min.avg)
  \<close>
\<close>

definition replaces :: "solution \<Rightarrow> solution \<Rightarrow> bool" where
  "replaces solution min' =
     (depth min' = 0
      \<or> depth solution < depth min'
      \<or> (depth solution = depth min' \<and> weight solution < weight min')
      \<or> (depth solution = depth min' \<and> weight solution = weight min'
          \<and> avg_lt (avg solution) (avg min')))"

text \<open>
  \<open>minifySolution min lock\<close>, with the function it maps over the lock
  (\<open>requirement_of\<close>, the map itself being \<open>requirements_of\<close>) and the reduction
  \<open>locks.reduce(minifySolution, min)\<close> (\<open>reduce_minifySolution\<close>). On an empty lock
  \<open>requirements.slice().sort(...).pop()\<close> is \<open>undefined\<close> and reading its \<open>depth\<close> throws
  a TypeError. The sort is by ascending depth, so the depth of the popped (last) element is
  taken.
\<close>

fun minifySolution :: "solution \<Rightarrow> node list \<Rightarrow> exn + solution"
  and requirement_of :: "node \<Rightarrow> exn + requirement"
  and requirements_of :: "node list \<Rightarrow> exn + requirement list"
  and reduce_minifySolution :: "solution \<Rightarrow> node list list \<Rightarrow> exn + solution" where
  "minifySolution min' lock =
     (case requirements_of lock of
        Inl e \<Rightarrow> Inl e
      | Inr rs \<Rightarrow>
          if rs = [] then Inl TypeError
          else
            (let d = q_depth (last (sort_key q_depth rs));
                 w = foldl (\<lambda>w r. w + q_depth r) 0 rs;
                 a = of_int w / of_nat (length rs);
                 solution = Solution d w a rs
             in Inr (if replaces solution min' then solution else min')))"
| "requirement_of (Node it None) = Inr (Requirement it 1 None)"
| "requirement_of (Node it (Some locks)) =
     (case reduce_minifySolution Initial locks of
        Inl e \<Rightarrow> Inl e
      | Inr solution \<Rightarrow> Inr (Requirement it (1 + depth solution) (Some solution)))"
| "requirements_of [] = Inr []"
| "requirements_of (n # ns) =
     (case requirement_of n of
        Inl e \<Rightarrow> Inl e
      | Inr r \<Rightarrow>
          (case requirements_of ns of
             Inl e \<Rightarrow> Inl e
           | Inr rs \<Rightarrow> Inr (r # rs)))"
| "reduce_minifySolution min' [] = Inr min'"
| "reduce_minifySolution min' (lock # locks) =
     (case minifySolution min' lock of
        Inl e \<Rightarrow> Inl e
      | Inr next_min \<Rightarrow> reduce_minifySolution next_min locks)"


text \<open>The triple by which the specification compares candidates, under the
  lexicographic order of products.\<close>

definition score :: "solution \<Rightarrow> int \<times> int \<times> rat" where
  "score s = (depth s, weight s, case avg s of None \<Rightarrow> 0 | Some a \<Rightarrow> a)"

subsection \<open>collectAbilities and pruneSubsets\<close>

text \<open>The \<open>Map\<close> from items to \<open>Set\<close>s of abilities that both functions share.\<close>

type_synonym cache = "string \<rightharpoonup> string set"

text \<open>
  \<open>collectAbilities node map\<close> returns the set and the updated map; \<open>collect_each\<close> is
  the \<open>forEach\<close> over \<open>node.solution.requirements\<close>, with the set \<open>abilities\<close> built so
  far. A solution without \<open>requirements\<close> (the initial value of a reduction) makes
  \<open>forEach\<close> a property of \<open>undefined\<close>: a TypeError.
\<close>

fun collectAbilities :: "requirement \<Rightarrow> cache \<Rightarrow> exn + (string set \<times> cache)"
  and collect_each :: "requirement list \<Rightarrow> string set \<Rightarrow> cache \<Rightarrow> exn + (string set \<times> cache)" where
  "collectAbilities (Requirement it d sol) m =
     (case m it of
        Some abilities \<Rightarrow> Inr (abilities, m)
      | None \<Rightarrow>
          (case sol of
             None \<Rightarrow> Inr ({it}, m(it \<mapsto> {it}))
           | Some Initial \<Rightarrow> Inl TypeError
           | Some (Solution sd sw sa rs) \<Rightarrow>
               (case collect_each rs {it} m of
                  Inl e \<Rightarrow> Inl e
                | Inr (abilities, m') \<Rightarrow> Inr (abilities, m'(it \<mapsto> abilities)))))"
| "collect_each [] abilities m = Inr (abilities, m)"
| "collect_each (n # ns) abilities m =
     (case collectAbilities n m of
        Inl e \<Rightarrow> Inl e
      | Inr (c, m') \<Rightarrow> collect_each ns (insert (q_item n) abilities \<union> c) m')"

text \<open>
  The inner loop of \<open>pruneSubsets\<close>, over the nodes after position \<open>i\<close>: a node all of
  whose collected abilities are in \<open>abilities\<close> is spliced out.
\<close>

fun prune_later :: "requirement list \<Rightarrow> string set \<Rightarrow> cache \<Rightarrow> exn + (requirement list \<times> cache)" where
  "prune_later [] abilities m = Inr ([], m)"
| "prune_later (cur # ns) abilities m =
     (case collectAbilities cur m of
        Inl e \<Rightarrow> Inl e
      | Inr (rs, m') \<Rightarrow>
          (case prune_later ns abilities m' of
             Inl e \<Rightarrow> Inl e
           | Inr (ns', m'') \<Rightarrow> Inr (if rs \<subseteq> abilities then ns' else cur # ns', m'')))"

text \<open>
  \<open>pruneSubsets node map\<close> returns the node as the calls leave it (the source sorts and
  splices the array \<open>node.solution.requirements\<close> in place) and the updated map.
  \<open>nodes.sort\<close> with \<open>b.depth - a.depth\<close> is a sort by descending depth, stable as
  \<open>Array.prototype.sort\<close> is since ECMAScript 2019.
  \<open>prune_loop\<close> is the outer loop from position \<open>i\<close> on: its first argument holds
  \<open>nodes[i]\<close> and the nodes after it. Without \<open>requirements\<close>, \<open>nodes\<close> is \<open>undefined\<close>
  and \<open>nodes.sort\<close> throws a TypeError.
\<close>

function pruneSubsets :: "requirement \<Rightarrow> cache \<Rightarrow> exn + (requirement \<times> cache)"
  and prune_loop :: "requirement list \<Rightarrow> string set \<Rightarrow> cache \<Rightarrow> exn + (requirement list \<times> cache)" where
  "pruneSubsets (Requirement it d None) m = Inr (Requirement it d None, m)"
| "pruneSubsets (Requirement it d (Some Initial)) m = Inl TypeError"
| "pruneSubsets (Requirement it d (Some (Solution sd sw sa rs))) m =
     (case prune_loop (sort_key (\<lambda>r. - q_depth r) rs) {} m of
        Inl e \<Rightarrow> Inl e
      | Inr (nodes, m') \<Rightarrow> Inr (Requirement it d (Some (Solution sd sw sa nodes)), m'))"
| "prune_loop [] abilities m = Inr ([], m)"
| "prune_loop (n # ns) abilities m =
     (case pruneSubsets n m of
        Inl e \<Rightarrow> Inl e
      | Inr (n', m1) \<Rightarrow>
          (case collectAbilities n' m1 of
             Inl e \<Rightarrow> Inl e
           | Inr (c, m2) \<Rightarrow>
               (case prune_later ns (abilities \<union> c) m2 of
                  Inl e \<Rightarrow> Inl e
                | Inr (ns', m3) \<Rightarrow>
                    (case prune_loop ns' (abilities \<union> c) m3 of
                       Inl e \<Rightarrow> Inl e
                     | Inr (ns'', m4) \<Rightarrow> Inr (n' # ns'', m4)))))"
  by pat_completeness auto
termination
proof (relation "measure (\<lambda>x. case x of Inl (n, m) \<Rightarrow> size n | Inr (ns, a, m) \<Rightarrow> size_list size ns)")
  have insort: "size_list f (insort_key k x xs) = Suc (f x + size_list f xs)"
    for f :: "requirement \<Rightarrow> nat" and k :: "requirement \<Rightarrow> int" and x xs
    by (induction xs) auto
  have sorted: "size_list f (sort_key k xs) = size_list f xs"
    for f :: "requirement \<Rightarrow> nat" and k :: "requirement \<Rightarrow> int" and xs
    by (induction xs) (auto simp: insort)
  have later: "size_list size ns' \<le> size_list size ns"
    if "prune_later ns abilities m = Inr (ns', m')" for ns abilities m ns' m'
    using that
  proof (induction ns arbitrary: m ns' m')
    case Nil
    then show ?case by simp
  next
    case (Cons a ns)
    from Cons.prems obtain rs m1 ns1 where
      2: "prune_later ns abilities m1 = Inr (ns1, m')" and
      3: "ns' = (if rs \<subseteq> abilities then ns1 else a # ns1)"
      by (auto split: sum.splits prod.splits)
    show ?case using Cons.IH [OF 2] 3 by auto
  qed
  show "wf (measure (\<lambda>x. case x of Inl (n, m) \<Rightarrow> size n | Inr (ns, a, m) \<Rightarrow> size_list size ns))"
    by simp
  show "\<And>it d sd sw sa rs m.
       (Inr (sort_key (\<lambda>r. - q_depth r) rs, {}, m), Inl (Requirement it d (Some (Solution sd sw sa rs)), m))
       \<in> measure (\<lambda>x. case x of Inl (n, m) \<Rightarrow> size n | Inr (ns, a, m) \<Rightarrow> size_list size ns)"
    by (simp add: sorted)
  show "\<And>n ns abilities m. (Inl (n, m), Inr (n # ns, abilities, m))
       \<in> measure (\<lambda>x. case x of Inl (n, m) \<Rightarrow> size n | Inr (ns, a, m) \<Rightarrow> size_list size ns)"
    by simp
  show "\<And>n ns abilities m x2 x y x2a xa ya x2b xb yb.
       prune_later ns (abilities \<union> xa) ya = Inr x2b \<Longrightarrow> (xb, yb) = x2b \<Longrightarrow>
       (Inr (xb, abilities \<union> xa, yb), Inr (n # ns, abilities, m))
       \<in> measure (\<lambda>x. case x of Inl (n, m) \<Rightarrow> size n | Inr (ns, a, m) \<Rightarrow> size_list size ns)"
    using later by fastforce
qed

text \<open>The abilities of a node and of all nodes below it: the set that
  \<open>collectAbilities\<close> computes when no item is in the map yet.\<close>

fun abilities_of :: "requirement \<Rightarrow> string set" where
  "abilities_of (Requirement it d sol) =
     insert it
       (case sol of
          Some (Solution sd sw sa rs) \<Rightarrow> (\<Union>r \<in> set rs. abilities_of r)
        | _ \<Rightarrow> {})"

text \<open>A node and all nodes below it.\<close>

fun nodes_of :: "requirement \<Rightarrow> requirement set" where
  "nodes_of (Requirement it d sol) =
     insert (Requirement it d sol)
       (case sol of
          Some (Solution sd sw sa rs) \<Rightarrow> (\<Union>r \<in> set rs. nodes_of r)
        | _ \<Rightarrow> {})"

text \<open>Every solution in the tree has its requirements.\<close>

definition complete :: "requirement \<Rightarrow> bool" where
  "complete n = (\<forall>a \<in> nodes_of n. q_solution a \<noteq> Some Initial)"

text \<open>Two nodes of the tree that carry the same item have the same abilities.\<close>

definition consistent :: "requirement \<Rightarrow> bool" where
  "consistent n =
     (\<forall>a \<in> nodes_of n. \<forall>b \<in> nodes_of n. q_item a = q_item b \<longrightarrow> abilities_of a = abilities_of b)"

text \<open>
  The pruning as the specification words it, on the sorted nodes and with the abilities
  of the nodes themselves: a node is dropped when its abilities are among those of the
  nodes kept before it (\<open>seen\<close>); a kept node is pruned in turn.
\<close>

function spec_prune :: "requirement \<Rightarrow> requirement"
  and spec_keep :: "string set \<Rightarrow> requirement list \<Rightarrow> requirement list" where
  "spec_prune (Requirement it d None) = Requirement it d None"
| "spec_prune (Requirement it d (Some Initial)) = Requirement it d (Some Initial)"
| "spec_prune (Requirement it d (Some (Solution sd sw sa rs))) =
     Requirement it d (Some (Solution sd sw sa (spec_keep {} (sort_key (\<lambda>r. - q_depth r) rs))))"
| "spec_keep seen [] = []"
| "spec_keep seen (n # ns) =
     (if abilities_of n \<subseteq> seen then spec_keep seen ns
      else spec_prune n # spec_keep (seen \<union> abilities_of n) ns)"
  by pat_completeness auto
termination
proof (relation "measure (\<lambda>x. case x of Inl n \<Rightarrow> size n | Inr (seen, ns) \<Rightarrow> size_list size ns)")
  have insort: "size_list f (insort_key k x xs) = Suc (f x + size_list f xs)"
    for f :: "requirement \<Rightarrow> nat" and k :: "requirement \<Rightarrow> int" and x xs
    by (induction xs) auto
  have sorted: "size_list f (sort_key k xs) = size_list f xs"
    for f :: "requirement \<Rightarrow> nat" and k :: "requirement \<Rightarrow> int" and xs
    by (induction xs) (auto simp: insort)
  show "\<And>it d sd sw sa rs.
       (Inr ({}, sort_key (\<lambda>r. - q_depth r) rs), Inl (Requirement it d (Some (Solution sd sw sa rs))))
       \<in> measure (\<lambda>x. case x of Inl n \<Rightarrow> size n | Inr (seen, ns) \<Rightarrow> size_list size ns)"
    by (simp add: sorted)
qed auto

subsection \<open>simplifySolution and renderSolutions\<close>

text \<open>\<open>simplifySolution\<close>; \<open>simplify_all\<close> is the map over \<open>requirements\<close>, which is
  \<open>undefined\<close> in the initial value of a reduction.\<close>

fun simplifySolution :: "requirement \<Rightarrow> exn + snode"
  and simplify_all :: "requirement list \<Rightarrow> exn + snode list" where
  "simplifySolution (Requirement it d None) = Inr (SNode it None)"
| "simplifySolution (Requirement it d (Some Initial)) = Inl TypeError"
| "simplifySolution (Requirement it d (Some (Solution sd sw sa rs))) =
     (case simplify_all rs of
        Inl e \<Rightarrow> Inl e
      | Inr ns \<Rightarrow> Inr (SNode it (Some ns)))"
| "simplify_all [] = Inr []"
| "simplify_all (r # rs) =
     (case simplifySolution r of
        Inl e \<Rightarrow> Inl e
      | Inr n \<Rightarrow>
          (case simplify_all rs of
             Inl e \<Rightarrow> Inl e
           | Inr ns \<Rightarrow> Inr (n # ns)))"

text \<open>\<^verbatim>\<open>minified.requirements.forEach(function(node) { pruneSubsets(node) })\<close>:
  each call starts from a new map.\<close>

fun prune_each :: "requirement list \<Rightarrow> exn + requirement list" where
  "prune_each [] = Inr []"
| "prune_each (n # ns) =
     (case pruneSubsets n Map.empty of
        Inl e \<Rightarrow> Inl e
      | Inr (n', m) \<Rightarrow>
          (case prune_each ns of
             Inl e \<Rightarrow> Inl e
           | Inr ns' \<Rightarrow> Inr (n' # ns')))"

text \<open>The array \<open>collapsed\<close> of \<open>renderSolutions\<close>: the tree that is rendered.\<close>

definition collapsed_solutions :: "node list list \<Rightarrow> exn + cnode list" where
  "collapsed_solutions solutions =
     (case reduce_minifySolution Initial solutions of
        Inl e \<Rightarrow> Inl e
      | Inr minified \<Rightarrow>
          (case requirements minified of
             None \<Rightarrow> Inl TypeError
           | Some rs \<Rightarrow>
               (case prune_each rs of
                  Inl e \<Rightarrow> Inl e
                | Inr pruned \<Rightarrow>
                    (case simplify_all pruned of
                       Inl e \<Rightarrow> Inl e
                     | Inr simplified \<Rightarrow> Inr (map collapseSolution simplified)))))"

definition renderSolutions :: "relic list \<Rightarrow> node list list \<Rightarrow> exn + string list" where
  "renderSolutions relics solutions =
     (case collapsed_solutions solutions of
        Inl e \<Rightarrow> Inl e
      | Inr collapsed \<Rightarrow> render_nodes relics 0 False collapsed)"

text \<open>
  For the proofs about the map: \<open>cache_ok cl m\<close> says that every set stored in the map
  \<open>m\<close> is the one the function \<open>cl\<close> gives for its item, \<open>agrees cl n\<close> that \<open>cl\<close> gives,
  for the item of every node of the tree, the abilities of that node.
\<close>

definition cache_ok :: "(string \<Rightarrow> string set) \<Rightarrow> cache \<Rightarrow> bool" where
  "cache_ok cl m = (\<forall>it s. m it = Some s \<longrightarrow> s = cl it)"

definition agrees :: "(string \<Rightarrow> string set) \<Rightarrow> requirement \<Rightarrow> bool" where
  "agrees cl n = (\<forall>a \<in> nodes_of n. abilities_of a = cl (q_item a))"

section \<open>Properties\<close>

subsection \<open>workerCountFromCores\<close>

text \<open>
  C9. The worker count is at least 1 for every core count, and it is the maximum of 1 and
  the floor of three quarters of the core count (the floor taken of the real quotient).
\<close>

theorem workerCountFromCores_at_least_one:
  "1 \<le> workerCountFromCores cores
   \<and> workerCountFromCores cores = max \<lfloor>3 * real_of_int cores / 4\<rfloor> 1"
proof -
  have "\<lfloor>3 * real_of_int cores / 4\<rfloor> = (3 * cores) div 4"
    using floor_divide_of_int_eq [of "3 * cores" 4, where ?'a = real] by simp
  then show ?thesis by (simp add: workerCountFromCores_def)
qed

theorem workerCountFromCores_at_least_one_witness:
  "workerCountFromCores 0 = 1 \<and> workerCountFromCores 1 = 1 \<and> workerCountFromCores 8 = 6
   \<and> 1 \<le> workerCountFromCores 0"
  using workerCountFromCores_at_least_one [of 0]
  by (simp add: workerCountFromCores_def)

subsection \<open>collapseSolution\<close>

lemma collapse_from_items: "c_items (collapse_from items n) = items @ chain_items n"
  by (induction items n rule: collapse_from.induct) auto

lemma collapse_from_ok: "collapsed_ok (collapse_from items n)"
  by (induction items n rule: collapse_from.induct) auto

lemma collapse_from_tokens: "c_tokens (collapse_from items n) = items @ s_tokens n"
proof (induction items n rule: collapse_from.induct)
  case (4 items it c d cs)
  have tl: "map (c_tokens \<circ> collapse_from []) cs = map s_tokens cs"
    using 4 by (intro map_cong) auto
  show ?case using 4 by (simp add: tl)
qed auto

lemma collapse_from_chain:
  "collapse_from items n =
     CNode (items @ chain_items n) (map_option (map (collapse_from [])) (s_solution (chain_end n)))"
  by (induction items n rule: collapse_from.induct) auto

lemma merged_iff:
  "merged n c \<longleftrightarrow>
     c_items c = chain_items n \<and>
     (case c_solution c of
        None \<Rightarrow> s_solution (chain_end n) = None
      | Some cs \<Rightarrow>
          (case s_solution (chain_end n) of
             None \<Rightarrow> False
           | Some ns \<Rightarrow> length ns \<noteq> 1 \<and> list_all2 merged ns cs))"
  by (cases c) simp

lemma collapse_from_below:
  "(case c_solution (collapse_from items n) of
      None \<Rightarrow> s_solution (chain_end n) = None
    | Some cs \<Rightarrow>
        (case s_solution (chain_end n) of
           None \<Rightarrow> False
         | Some ns \<Rightarrow> length ns \<noteq> 1 \<and> list_all2 merged ns cs))"
proof (induction items n rule: collapse_from.induct)
  case (4 items it c d cs)
  have "merged x (collapse_from [] x)" if "x \<in> set (c # d # cs)" for x
    using 4 [OF that] collapse_from_items [of "[]" x] by (simp add: merged_iff)
  then have "list_all2 merged (c # d # cs) (map (collapse_from []) (c # d # cs))"
    unfolding list_all2_map2 by (intro list_all2_same [THEN iffD2]) blast
  then show ?case by simp
next
  case (3 items it c)
  have "chain_end (SNode it (Some [c])) = chain_end c" by simp
  then show ?case using 3 by (simp only: collapse_from.simps)
qed simp_all

lemma collapse_from_merged: "merged n (collapse_from [] n)"
  using collapse_from_below [where items = "[]" and n = n] collapse_from_items [of "[]" n]
  by (simp add: merged_iff)

text \<open>
  C10. In the tree that \<open>collapseSolution\<close> returns no node has a solution list of exactly
  one element and every node has a non-empty items list. Every node of the result is a
  merged chain (\<open>merged\<close>): its items are the items met on the chain of single-element
  solutions that starts at the input node it stands for, in the order of the chain, and
  its sub-nodes stand, one for one and in order, for the sub-nodes of the node at which
  that chain ends. So \<open>collapseSolution\<close> maps a node to the items of its chain and to the
  collapsed sub-nodes of the end of the chain, and a chain of single alternatives never
  survives. The tokens of the whole tree, read node before sub-nodes and left to right,
  are those of the input in the same order.
\<close>

theorem collapseSolution_invariants:
  "collapsed_ok (collapseSolution node)
   \<and> c_items (collapseSolution node) = chain_items node
   \<and> c_tokens (collapseSolution node) = s_tokens node
   \<and> merged node (collapseSolution node)
   \<and> collapseSolution node =
       CNode (chain_items node) (map_option (map collapseSolution) (s_solution (chain_end node)))"
proof -
  have "collapseSolution = collapse_from []"
    by (rule ext) (simp add: collapseSolution_def)
  then show ?thesis
    using collapse_from_ok [of "[]" node] collapse_from_items [of "[]" node]
      collapse_from_tokens [of "[]" node] collapse_from_merged [of node]
      collapse_from_chain [of "[]" node]
    by simp
qed

theorem collapseSolution_invariants_witness:
  "collapseSolution (SNode ''A'' (Some [SNode ''B'' (Some [SNode ''C'' None, SNode ''D'' (Some [SNode ''E'' None])])]))
     = CNode [''A'', ''B''] (Some [CNode [''C''] None, CNode [''D'', ''E''] None])
   \<and> collapsed_ok (collapseSolution (SNode ''A'' (Some [SNode ''B'' (Some [SNode ''C'' None, SNode ''D'' (Some [SNode ''E'' None])])])))
   \<and> c_tokens (collapseSolution (SNode ''A'' (Some [SNode ''B'' (Some [SNode ''C'' None, SNode ''D'' (Some [SNode ''E'' None])])])))
       = [''A'', ''B'', ''C'', ''D'', ''E'']
   \<and> merged (SNode ''A'' (Some [SNode ''B'' (Some [SNode ''C'' None, SNode ''D'' (Some [SNode ''E'' None])])]))
       (CNode [''A'', ''B''] (Some [CNode [''C''] None, CNode [''D'', ''E''] None]))
   \<and> \<not> merged (SNode ''A'' (Some [SNode ''B'' (Some [SNode ''C'' None, SNode ''D'' (Some [SNode ''E'' None])])]))
       (CNode [''A'', ''B''] (Some [CNode [''C'', ''D'', ''E''] None]))"
  using collapseSolution_invariants
    [of "SNode ''A'' (Some [SNode ''B'' (Some [SNode ''C'' None, SNode ''D'' (Some [SNode ''E'' None])])])"]
  by (simp add: collapseSolution_def)

subsection \<open>renderNode\<close>

lemma join_length:
  "length (join sep names) = sum_list (map length names) + length sep * (length names - 1)"
  by (induction sep names rule: join.induct) auto

lemma join_butlast:
  "length (join ''   '' (butlast names @ [[]])) = length (join '' < '' names) - length (last names)"
proof (cases "names = []")
  case False
  have "sum_list (map length (butlast names)) + length (last names) = sum_list (map length names)"
    using False by (induction names) auto
  then show ?thesis using False by (simp add: join_length)
qed simp

lemma take_indent_le:
  assumes "take (a + b) l = indent (a + b)"
  shows "take a l = indent a"
proof -
  have "take a l = take a (take (a + b) l)" by (simp add: min_def)
  also have "\<dots> = indent a" unfolding assms by (simp add: indent_def min_def)
  finally show ?thesis .
qed

lemma render_lines_indented:
  "(\<forall>ls. renderNode relics level sub node = Inr ls \<longrightarrow> (\<forall>l \<in> set ls. take level l = indent level))
   \<and> (\<forall>ls. render_nodes relics level sub nodes = Inr ls \<longrightarrow> (\<forall>l \<in> set ls. take level l = indent level))"
proof -
  have "(\<forall>ls. renderNode relics level sub node = Inr ls \<longrightarrow> (\<forall>l \<in> set ls. take level l = indent level))"
   and "(\<forall>ls. render_nodes relics level sub nodes = Inr ls \<longrightarrow> (\<forall>l \<in> set ls. take level l = indent level))"
  proof (induction relics level sub node and relics level sub nodes rule: renderNode_render_nodes.induct)
    case (1 relics indentLevel sub items sol)
    show ?case
    proof (intro allI impI ballI)
      fix ls l
      assume r: "renderNode relics indentLevel sub (CNode items sol) = Inr ls" and l: "l \<in> set ls"
      obtain names where n: "relic_names relics items = Inr names"
        using r by (auto split: sum.splits)
      let ?line = "indent indentLevel @ (if sub then ''^ '' else []) @ join '' < '' names"
      let ?b = "(if sub then 2 else 0) + length (join ''   '' (butlast names @ [[]]))"
      show "take indentLevel l = indent indentLevel"
      proof (cases sol)
        case None
        then show ?thesis using r l n by (auto simp: indent_def)
      next
        case (Some nodes)
        then obtain ls' where ls': "render_nodes relics (indentLevel + ?b) True nodes = Inr ls'" "ls = ?line # ls'"
          using r n by (simp add: Let_def add.assoc split: sum.splits)
        have "\<forall>l \<in> set ls'. take (indentLevel + ?b) l = indent (indentLevel + ?b)"
          using 1 [OF n refl Some refl] ls' by (simp add: Let_def add.assoc)
        then have "\<forall>l \<in> set ls'. take indentLevel l = indent indentLevel"
          using take_indent_le by blast
        then show ?thesis using l ls' by (auto simp: indent_def)
      qed
    qed
  next
    case (2 relics level sub)
    then show ?case by simp
  next
    case (3 relics level sub n ns)
    then show ?case by (auto split: sum.splits)
  qed
  then show ?thesis by blast
qed

lemma join_empty_last:
  "length (join ''   '' (butlast names @ [[]])) = last_token_column names"
proof (cases "length names \<le> 1")
  case True
  then have "butlast names = []" by (cases names) auto
  then show ?thesis using True by (simp add: last_token_column_def)
next
  case False
  define xs where "xs = butlast names"
  have "xs \<noteq> []" using False unfolding xs_def by (cases names) auto
  then have l: "0 < length xs" by simp
  have "length (join ''   '' (xs @ [[]])) = sum_list (map length xs) + 3 * length xs"
    by (simp add: join_length)
  moreover have "3 * (length xs - 1) + 3 = 3 * length xs" using l by arith
  then have "length (join '' < '' xs) + 3 = sum_list (map length xs) + 3 * length xs"
    by (simp only: join_length) simp
  ultimately show ?thesis using False by (simp add: last_token_column_def xs_def)
qed

lemma relic_names_ok:
  "\<forall>a \<in> set items. relicFromAbility relics a \<noteq> None \<Longrightarrow>
     relic_names relics items = Inr (map (name_of relics) items)"
  by (induction items) (auto simp: name_of_def)

lemma relic_names_fail:
  "\<exists>a \<in> set items. relicFromAbility relics a = None \<Longrightarrow> relic_names relics items = Inl TypeError"
proof (induction items)
  case Nil
  then show ?case by simp
next
  case (Cons a items)
  show ?case
  proof (cases "relicFromAbility relics a")
    case None
    then show ?thesis by simp
  next
    case (Some r)
    then have "\<exists>a \<in> set items. relicFromAbility relics a = None" using Cons.prems by auto
    then have "relic_names relics items = Inl TypeError" by (rule Cons.IH)
    then show ?thesis using Some by simp
  qed
qed

lemma render_nodes_concat:
  "render_nodes relics level sub nodes = Inr ls \<longleftrightarrow>
     (\<exists>lss. list_all2 (\<lambda>n l. renderNode relics level sub n = Inr l) nodes lss \<and> ls = concat lss)"
proof (induction nodes arbitrary: ls)
  case Nil
  then show ?case by auto
next
  case (Cons n ns)
  show ?case
  proof
    assume "render_nodes relics level sub (n # ns) = Inr ls"
    then obtain l ls' where l: "renderNode relics level sub n = Inr l"
      "render_nodes relics level sub ns = Inr ls'" "ls = l @ ls'"
      by (auto split: sum.splits)
    then obtain lss where "list_all2 (\<lambda>n l. renderNode relics level sub n = Inr l) ns lss"
      "ls' = concat lss"
      using Cons [of ls'] by blast
    then have "list_all2 (\<lambda>n l. renderNode relics level sub n = Inr l) (n # ns) (l # lss)
       \<and> ls = concat (l # lss)"
      using l by simp
    then show "\<exists>lss. list_all2 (\<lambda>n l. renderNode relics level sub n = Inr l) (n # ns) lss
       \<and> ls = concat lss"
      by blast
  next
    assume "\<exists>lss. list_all2 (\<lambda>n l. renderNode relics level sub n = Inr l) (n # ns) lss
       \<and> ls = concat lss"
    then obtain l lss where l: "renderNode relics level sub n = Inr l"
      "list_all2 (\<lambda>n l. renderNode relics level sub n = Inr l) ns lss" "ls = l @ concat lss"
      by (auto simp: list_all2_Cons1)
    then have "render_nodes relics level sub ns = Inr (concat lss)"
      using Cons [of "concat lss"] by blast
    then show "render_nodes relics level sub (n # ns) = Inr ls" using l by simp
  qed
qed

lemma render_spec:
  "(\<forall>a \<in> set (c_tokens node). relicFromAbility relics a \<noteq> None) \<longrightarrow>
     renderNode relics level sub node = Inr (spec_lines (name_of relics) level sub node)"
  "(\<forall>n \<in> set nodes. \<forall>a \<in> set (c_tokens n). relicFromAbility relics a \<noteq> None) \<longrightarrow>
     render_nodes relics level sub nodes
       = Inr (concat (map (spec_lines (name_of relics) level sub) nodes))"
proof (induction relics level sub node and relics level sub nodes rule: renderNode_render_nodes.induct)
  case (1 relics indentLevel sub items sol)
  show ?case
  proof
    assume a: "\<forall>a \<in> set (c_tokens (CNode items sol)). relicFromAbility relics a \<noteq> None"
    let ?names = "map (name_of relics) items"
    have n: "relic_names relics items = Inr ?names"
      using a by (intro relic_names_ok) simp
    show "renderNode relics indentLevel sub (CNode items sol)
        = Inr (spec_lines (name_of relics) indentLevel sub (CNode items sol))"
    proof (cases sol)
      case None
      then show ?thesis using n by (simp add: indent_def)
    next
      case (Some nodes)
      have "\<forall>n \<in> set nodes. \<forall>a \<in> set (c_tokens n). relicFromAbility relics a \<noteq> None"
        using a Some by auto
      then have "render_nodes relics
           (indentLevel + (if sub then 2 else 0) + length (join ''   '' (butlast ?names @ [[]]))) True nodes
         = Inr (concat (map (spec_lines (name_of relics)
             (indentLevel + (if sub then 2 else 0) + length (join ''   '' (butlast ?names @ [[]]))) True) nodes))"
        using 1 [OF n refl Some refl] by blast
      then show ?thesis using n Some by (simp add: indent_def join_empty_last Let_def)
    qed
  qed
next
  case (2 relics level sub)
  then show ?case by simp
next
  case (3 relics level sub n ns)
  show ?case
  proof
    assume a: "\<forall>n \<in> set (n # ns). \<forall>a \<in> set (c_tokens n). relicFromAbility relics a \<noteq> None"
    then have 1: "renderNode relics level sub n = Inr (spec_lines (name_of relics) level sub n)"
      using 3(1) by simp
    have "render_nodes relics level sub ns
       = Inr (concat (map (spec_lines (name_of relics) level sub) ns))"
      using 3(2) [OF 1] a by simp
    then show "render_nodes relics level sub (n # ns)
       = Inr (concat (map (spec_lines (name_of relics) level sub) (n # ns)))"
      using 1 by simp
  qed
qed

lemma render_fail:
  "(\<exists>a \<in> set (c_tokens node). relicFromAbility relics a = None) \<longrightarrow>
     renderNode relics level sub node = Inl TypeError"
  "(\<exists>n \<in> set nodes. \<exists>a \<in> set (c_tokens n). relicFromAbility relics a = None) \<longrightarrow>
     render_nodes relics level sub nodes = Inl TypeError"
proof (induction relics level sub node and relics level sub nodes rule: renderNode_render_nodes.induct)
  case (1 relics indentLevel sub items sol)
  show ?case
  proof
    assume a: "\<exists>a \<in> set (c_tokens (CNode items sol)). relicFromAbility relics a = None"
    show "renderNode relics indentLevel sub (CNode items sol) = Inl TypeError"
    proof (cases "\<exists>a \<in> set items. relicFromAbility relics a = None")
      case True
      then show ?thesis using relic_names_fail [of items relics] by simp
    next
      case False
      then have n: "relic_names relics items = Inr (map (name_of relics) items)"
        by (intro relic_names_ok) simp
      obtain nodes where s: "sol = Some nodes"
        "\<exists>n \<in> set nodes. \<exists>a \<in> set (c_tokens n). relicFromAbility relics a = None"
        using a False by (cases sol) auto
      let ?names = "map (name_of relics) items"
      have "render_nodes relics
           (indentLevel + (if sub then 2 else 0) + length (join ''   '' (butlast ?names @ [[]]))) True nodes
         = Inl TypeError"
        using 1 [OF n refl s(1) refl] s(2) by blast
      then show ?thesis using n s(1) by (simp add: Let_def)
    qed
  qed
next
  case (2 relics level sub)
  then show ?case by simp
next
  case (3 relics level sub n ns)
  show ?case
  proof
    assume a: "\<exists>n \<in> set (n # ns). \<exists>a \<in> set (c_tokens n). relicFromAbility relics a = None"
    show "render_nodes relics level sub (n # ns) = Inl TypeError"
    proof (cases "\<exists>a \<in> set (c_tokens n). relicFromAbility relics a = None")
      case True
      then have "renderNode relics level sub n = Inl TypeError" using 3(1) by blast
      then show ?thesis by simp
    next
      case False
      then have 1: "renderNode relics level sub n = Inr (spec_lines (name_of relics) level sub n)"
        using render_spec(1) [of n relics level sub] by simp
      have "\<exists>n \<in> set ns. \<exists>a \<in> set (c_tokens n). relicFromAbility relics a = None"
        using a False by auto
      then have "render_nodes relics level sub ns = Inl TypeError"
        using 3(2) [OF 1] by blast
      then show ?thesis using 1 by simp
    qed
  qed
qed

text \<open>
  C8. When every token of the tree has a relic, \<open>renderNode\<close> returns the lines of
  \<open>spec_lines\<close>: a node on one line, the names of its tokens joined by \<open>" < "\<close> in the order
  of \<open>items\<close>, after the indentation and, for a node rendered as an alternative (\<open>sub\<close>),
  after \<open>"^ "\<close>; below it all its sub-nodes in order, each rendered as an alternative with
  its own sub-nodes below it, and all of them at the same indentation: that of the node,
  2 more under an alternative, and the column at which the last name of the node starts
  (the width of the joined names less the width of the last name). When a token has no
  relic the call throws a TypeError. The lines of an array of nodes are those of its
  nodes, concatenated in order, and every line of a node starts with the indentation of
  the node. The tree of the example renders as the two lines \<open>"A < B"\<close> and
  \<open>"    ^ C"\<close>, and a tree with two alternatives, the first with two alternatives of its
  own, as the five lines of the witness. The rendering is a function of the relic table
  and the tree alone.
\<close>

theorem renderNode_layout:
  "(\<forall>names. relic_names relics (c_items node) = Inr names \<longrightarrow>
      renderNode relics level sub node =
        (case c_solution node of
           None \<Rightarrow> Inr [indent level @ (if sub then ''^ '' else []) @ join '' < '' names]
         | Some nodes \<Rightarrow>
             (case render_nodes relics
                     (level + (if sub then 2 else 0)
                        + (length (join '' < '' names) - length (last names))) True nodes of
                Inl e \<Rightarrow> Inl e
              | Inr ls \<Rightarrow> Inr ((indent level @ (if sub then ''^ '' else []) @ join '' < '' names) # ls))))
   \<and> (\<forall>ls. renderNode relics level sub node = Inr ls \<longrightarrow>
          (\<forall>l \<in> set ls. take level l = indent level))
   \<and> (\<forall>ls. render_nodes relics level sub nodes = Inr ls \<longleftrightarrow>
          (\<exists>lss. list_all2 (\<lambda>n l. renderNode relics level sub n = Inr l) nodes lss
             \<and> ls = concat lss))
   \<and> renderNode relics level sub node =
        (if \<forall>a \<in> set (c_tokens node). relicFromAbility relics a \<noteq> None
         then Inr (spec_lines (name_of relics) level sub node)
         else Inl TypeError)"
proof (intro conjI allI impI)
  fix names assume "relic_names relics (c_items node) = Inr names"
  then show "renderNode relics level sub node =
        (case c_solution node of
           None \<Rightarrow> Inr [indent level @ (if sub then ''^ '' else []) @ join '' < '' names]
         | Some nodes \<Rightarrow>
             (case render_nodes relics
                     (level + (if sub then 2 else 0)
                        + (length (join '' < '' names) - length (last names))) True nodes of
                Inl e \<Rightarrow> Inl e
              | Inr ls \<Rightarrow> Inr ((indent level @ (if sub then ''^ '' else []) @ join '' < '' names) # ls)))"
    by (cases node) (simp add: join_butlast Let_def split: option.splits sum.splits)
next
  fix ls assume "renderNode relics level sub node = Inr ls"
  then show "\<forall>l \<in> set ls. take level l = indent level"
    using render_lines_indented [of relics level sub node] by blast
next
  fix ls
  show "render_nodes relics level sub nodes = Inr ls \<longleftrightarrow>
          (\<exists>lss. list_all2 (\<lambda>n l. renderNode relics level sub n = Inr l) nodes lss
             \<and> ls = concat lss)"
    by (rule render_nodes_concat)
next
  show "renderNode relics level sub node =
        (if \<forall>a \<in> set (c_tokens node). relicFromAbility relics a \<noteq> None
         then Inr (spec_lines (name_of relics) level sub node)
         else Inl TypeError)"
    using render_spec(1) [of node relics level sub] render_fail(1) [of node relics level sub]
    by auto
qed

theorem renderNode_layout_witness:
  "renderNode
     [\<lparr>ability = ''A'', name = ''A''\<rparr>, \<lparr>ability = ''B'', name = ''B''\<rparr>,
      \<lparr>ability = ''C'', name = ''C''\<rparr>] 0 False
     (CNode [''A'', ''B''] (Some [CNode [''C''] None])) = Inr [''A < B'', ''    ^ C'']
   \<and> renderNode
     [\<lparr>ability = ''b'', name = ''Soul of Bat''\<rparr>, \<lparr>ability = ''w'', name = ''Soul of Wolf''\<rparr>,
      \<lparr>ability = ''m'', name = ''Form of Mist''\<rparr>, \<lparr>ability = ''j'', name = ''Leap Stone''\<rparr>,
      \<lparr>ability = ''g'', name = ''Gravity Boots''\<rparr>, \<lparr>ability = ''e'', name = ''Echo of Bat''\<rparr>] 0 False
     (CNode [''b'', ''w''] (Some [CNode [''m'', ''j''] (Some [CNode [''g''] None, CNode [''e''] None]),
                                   CNode [''g''] None]))
     = Inr [''Soul of Bat < Soul of Wolf'',
            ''              ^ Form of Mist < Leap Stone'',
            ''                               ^ Gravity Boots'',
            ''                               ^ Echo of Bat'',
            ''              ^ Gravity Boots'']
   \<and> renderNode [\<lparr>ability = ''A'', name = ''A''\<rparr>] 0 False
     (CNode [''A''] (Some [CNode [''C''] None])) = Inl TypeError"
  using renderNode_layout
    [of "[\<lparr>ability = ''A'', name = ''A''\<rparr>, \<lparr>ability = ''B'', name = ''B''\<rparr>,
      \<lparr>ability = ''C'', name = ''C''\<rparr>]" "CNode [''A'', ''B''] (Some [CNode [''C''] None])" 0 False "[]"]
    renderNode_layout
    [of "[\<lparr>ability = ''b'', name = ''Soul of Bat''\<rparr>, \<lparr>ability = ''w'', name = ''Soul of Wolf''\<rparr>,
      \<lparr>ability = ''m'', name = ''Form of Mist''\<rparr>, \<lparr>ability = ''j'', name = ''Leap Stone''\<rparr>,
      \<lparr>ability = ''g'', name = ''Gravity Boots''\<rparr>, \<lparr>ability = ''e'', name = ''Echo of Bat''\<rparr>]"
      "CNode [''b'', ''w''] (Some [CNode [''m'', ''j''] (Some [CNode [''g''] None, CNode [''e''] None]),
                                   CNode [''g''] None])" 0 False "[]"]
    renderNode_layout
    [of "[\<lparr>ability = ''A'', name = ''A''\<rparr>]" "CNode [''A''] (Some [CNode [''C''] None])" 0 False "[]"]
  by (simp add: relicFromAbility_def indent_def)

subsection \<open>randomizeRelics: the reduction of the results\<close>

lemma pick_cases:
  "pick c r = c \<or> pick c r = r"
  by (simp add: pick_def)



lemma foldl_pick_errors:
  "has_error c \<Longrightarrow> \<forall>r \<in> set rs. has_error r \<Longrightarrow> foldl pick c rs = last (c # rs)"
  by (induction rs arbitrary: c) (auto simp: pick_def)

lemma foldl_pick_success:
  "\<not> has_error c \<Longrightarrow> \<not> has_error (foldl pick c rs) \<and> foldl pick c rs \<in> insert c (set rs)"
proof (induction rs arbitrary: c)
  case (Cons r rs)
  then show ?case using pick_cases [of c r] by (auto simp: pick_def)
qed simp

lemma foldl_pick_some_success:
  "\<exists>r \<in> set (c # rs). \<not> has_error r \<Longrightarrow>
     \<not> has_error (foldl pick c rs) \<and> foldl pick c rs \<in> set (c # rs)"
proof (induction rs arbitrary: c)
  case (Cons r rs)
  show ?case
  proof (cases "has_error c")
    case True
    then have "pick c r = r" by (simp add: pick_def)
    then show ?thesis using Cons.IH [of r] Cons.prems True by auto
  next
    case False
    then show ?thesis using foldl_pick_success [of c "r # rs"] by auto
  qed
qed simp








subsection \<open>randomizeRelics: errors\<close>

lemma on_message_no_throw:
  "\<not> error_thrown result \<Longrightarrow> \<exists>s'. on_message thread result s = Inr s'"
  by (simp add: on_message_def)

lemma run_first_error:
  assumes "\<forall>e \<in> set before. \<not> error_thrown (snd e)" "error_thrown result"
  shows "run (before @ (thread, result) # after) s = Inl (listener_error (the (r_error result)))"
  using assms
proof (induction before arbitrary: s)
  case Nil
  then show ?case by (simp add: on_message_def)
next
  case (Cons e before)
  obtain t r where e: "e = (t, r)" by (cases e)
  then obtain s' where "on_message t r s = Inr s'"
    using Cons.prems on_message_no_throw [of r t s] by auto
  then show ?case using Cons e by simp
qed

text \<open>
  C1, as the code has it. A message whose error is truthy and not a boolean is thrown by
  the listener that receives it: the first such message in the order of arrival ends the
  run with its error, whatever was reported before it. A result that reaches the
  reduction with an error key does not win over the others: as soon as one result has no
  error key the promise is fulfilled with an error-free result, and only when every
  result has an error key is the last result taken, its error thrown when it is truthy.
\<close>

theorem errors_in_randomizeRelics:
  "((\<forall>e \<in> set before. \<not> error_thrown (snd e)) \<and> error_thrown result \<longrightarrow>
      run (before @ (thread, result) # after) s = Inl (listener_error (the (r_error result))))
   \<and> ((\<exists>r \<in> set results. \<not> has_error r) \<longrightarrow>
      (\<exists>w. randomizeRelics_then results = Inr w \<and> w \<in> set results \<and> \<not> has_error w))
   \<and> (results \<noteq> [] \<and> (\<forall>r \<in> set results. has_error r) \<longrightarrow>
      randomizeRelics_then results =
        (if truthy (the (r_error (last results))) then Inl (Raw (the (r_error (last results))))
         else Inr (last results)))"
proof (intro conjI impI)
  assume "(\<forall>e \<in> set before. \<not> error_thrown (snd e)) \<and> error_thrown result"
  then show "run (before @ (thread, result) # after) s = Inl (listener_error (the (r_error result)))"
    using run_first_error by blast
next
  assume a: "\<exists>r \<in> set results. \<not> has_error r"
  then obtain c rs where c: "results = c # rs" by (cases results) auto
  then have "\<not> has_error (foldl pick c rs) \<and> foldl pick c rs \<in> set (c # rs)"
    using foldl_pick_some_success [of c rs] a by simp
  then show "\<exists>w. randomizeRelics_then results = Inr w \<and> w \<in> set results \<and> \<not> has_error w"
    using c by (simp add: randomizeRelics_then_def has_error_def)
next
  assume a: "results \<noteq> [] \<and> (\<forall>r \<in> set results. has_error r)"
  then obtain c rs where c: "results = c # rs" by (cases results) auto
  then have l: "foldl pick c rs = last results"
    using foldl_pick_errors [of c rs] a by simp
  have "has_error (last results)" using a last_in_set by blast
  then obtain v where "r_error (last results) = Some v" by (auto simp: has_error_def)
  then show "randomizeRelics_then results =
        (if truthy (the (r_error (last results))) then Inl (Raw (the (r_error (last results))))
         else Inr (last results))"
    using c l by (simp add: randomizeRelics_then_def)
qed

theorem errors_in_randomizeRelics_witness:
  "run ([(1, \<lparr>r_error = None, r_done = True, r_nonce = Some 4, r_data = ''found''\<rparr>)]
        @ (0, \<lparr>r_error = Some (JObj (Some ''Error'') (Some ''contradiction'') None),
               r_done = False, r_nonce = None, r_data = []\<rparr>) # [])
       (randomizeRelics_start 2 3 None)
     = Inl (ErrorObject (Some ''Error'') (Some ''contradiction'') None)
   \<and> randomizeRelics_then
        [\<lparr>r_error = Some (JBool True), r_done = True, r_nonce = None, r_data = []\<rparr>,
         \<lparr>r_error = None, r_done = True, r_nonce = Some 4, r_data = ''found''\<rparr>]
     = Inr \<lparr>r_error = None, r_done = True, r_nonce = Some 4, r_data = ''found''\<rparr>
   \<and> randomizeRelics_then
        [\<lparr>r_error = Some (JBool True), r_done = True, r_nonce = None, r_data = ''first''\<rparr>,
         \<lparr>r_error = Some (JBool True), r_done = True, r_nonce = None, r_data = ''second''\<rparr>]
     = Inl (Raw (JBool True))"
  using errors_in_randomizeRelics
    [of "[(1, \<lparr>r_error = None, r_done = True, r_nonce = Some 4, r_data = ''found''\<rparr>)]"
        "\<lparr>r_error = Some (JObj (Some ''Error'') (Some ''contradiction'') None),
               r_done = False, r_nonce = None, r_data = []\<rparr>"
        0 "[]" "randomizeRelics_start 2 3 None"
        "[\<lparr>r_error = Some (JBool True), r_done = True, r_nonce = None, r_data = ''first''\<rparr>,
         \<lparr>r_error = Some (JBool True), r_done = True, r_nonce = None, r_data = ''second''\<rparr>]"]
    errors_in_randomizeRelics
    [of "[]" "\<lparr>r_error = None, r_done = True, r_nonce = Some 4, r_data = ''found''\<rparr>"
        0 "[]" "randomizeRelics_start 2 3 None"
        "[\<lparr>r_error = Some (JBool True), r_done = True, r_nonce = None, r_data = []\<rparr>,
         \<lparr>r_error = None, r_done = True, r_nonce = Some 4, r_data = ''found''\<rparr>]"]
  by (simp add: error_thrown_def has_error_def randomizeRelics_then_def pick_def)

text \<open>
  C1 as stated fails. Of an error result followed by a success the reduction returns the
  success. The two results come about when worker 1 succeeds and worker 0 then reports
  \<open>{error: true}\<close>: the promise is fulfilled with the success. And when worker 0 reports
  \<open>{error: true}\<close> first, it is sent the next attempt and the error is not seen again.
\<close>

theorem first_error_masked_counterexample:
  "randomizeRelics_then
        [\<lparr>r_error = Some (JBool True), r_done = False, r_nonce = None, r_data = ''failed''\<rparr>,
         \<lparr>r_error = None, r_done = True, r_nonce = Some 4, r_data = ''found''\<rparr>]
     = Inr \<lparr>r_error = None, r_done = True, r_nonce = Some 4, r_data = ''found''\<rparr>
   \<and> (case run [(1, \<lparr>r_error = None, r_done = True, r_nonce = Some 4, r_data = ''found''\<rparr>),
                (0, \<lparr>r_error = Some (JBool True), r_done = False, r_nonce = None, r_data = ''failed''\<rparr>)]
           (randomizeRelics_start 2 3 None) of
        Inl e \<Rightarrow> None
      | Inr s \<Rightarrow> randomizeRelics_promise s)
     = Some (Inr \<lparr>r_error = None, r_done = True, r_nonce = Some 4, r_data = ''found''\<rparr>)
   \<and> (case run [(0, \<lparr>r_error = Some (JBool True), r_done = False, r_nonce = None, r_data = ''failed''\<rparr>),
                (1, \<lparr>r_error = None, r_done = True, r_nonce = Some 4, r_data = ''found''\<rparr>),
                (0, \<lparr>r_error = None, r_done = True, r_nonce = Some 5, r_data = ''found later''\<rparr>)]
           (randomizeRelics_start 2 3 None) of
        Inl e \<Rightarrow> None
      | Inr s \<Rightarrow> randomizeRelics_promise s)
     = Some (Inr \<lparr>r_error = None, r_done = True, r_nonce = Some 4, r_data = ''found''\<rparr>)"
  by (simp add: randomizeRelics_then_def pick_def has_error_def randomizeRelics_start_def
      start_worker_def postMessage_def on_message_def error_thrown_def randomizeRelics_promise_def
      upt_rec numeral_2_eq_2)

subsection \<open>randomizeRelics: cancellation\<close>

text \<open>
  C3, as the code has it. On a success of worker \<open>thread\<close> the listener sets \<open>done\<close>,
  resolves the promise of that worker and posts the cancellation to that worker only.
  Every other worker gets its cancellation when its own next message arrives; that
  message, unless it throws, resolves the worker's promise when it is still pending, and
  the promise of \<open>randomizeRelics\<close> stays pending as long as a worker has not answered.
\<close>

theorem on_success_cancels_sender_only:
  assumes "thread < length (o_promises s)" "\<not> error_thrown result" "r_done result"
  shows "\<exists>s'. on_message thread result s = Inr s'
     \<and> o_done s'
     \<and> o_posted s' = o_posted s @ [(thread, Cancel)]
     \<and> o_promises s' = (o_promises s)[thread := resolve (o_promises s ! thread) result]
     \<and> (\<forall>u result'. u < length (o_promises s) \<and> u \<noteq> thread \<and> \<not> error_thrown result' \<longrightarrow>
           (\<exists>s''. on_message u result' s' = Inr s''
              \<and> o_posted s'' = o_posted s' @ [(u, Cancel)]
              \<and> o_promises s'' ! u = resolve (o_promises s ! u) result'))
     \<and> ((\<exists>u < length (o_promises s). u \<noteq> thread \<and> o_promises s ! u = None) \<longrightarrow>
           randomizeRelics_promise s' = None)"
proof -
  let ?s' = "s\<lparr>o_done := True,
               o_promises := (o_promises s)[thread := resolve (o_promises s ! thread) result],
               o_running := (o_running s)[thread := False],
               o_posted := o_posted s @ [(thread, Cancel)]\<rparr>"
  have 1: "on_message thread result s = Inr ?s'"
    using assms by (simp add: on_message_def)
  have 2: "\<exists>s''. on_message u result' ?s' = Inr s''
              \<and> o_posted s'' = o_posted ?s' @ [(u, Cancel)]
              \<and> o_promises s'' ! u = resolve (o_promises s ! u) result'"
    if "u < length (o_promises s)" "u \<noteq> thread" "\<not> error_thrown result'" for u result'
    using that by (simp add: on_message_def)
  have 3: "randomizeRelics_promise ?s' = None"
    if h: "\<exists>u < length (o_promises s). u \<noteq> thread \<and> o_promises s ! u = None"
  proof -
    obtain u where u: "u < length (o_promises s)" "u \<noteq> thread" "o_promises s ! u = None"
      using h by blast
    then have "o_promises ?s' ! u = None" by simp
    then have "\<not> list_all (\<lambda>p. p \<noteq> None) (o_promises ?s')"
      using u(1) by (auto simp: list_all_length)
    then show ?thesis by (simp add: randomizeRelics_promise_def)
  qed
  show ?thesis using 1 2 3 by (intro exI [of _ ?s']) simp
qed

theorem on_success_cancels_sender_only_witness:
  "\<exists>s'. on_message 1 \<lparr>r_error = None, r_done = True, r_nonce = Some 4, r_data = ''found''\<rparr>
            (randomizeRelics_start 2 3 None) = Inr s'
     \<and> o_posted s' = [(0, Load), (0, Relics 3 1 True), (1, Load), (1, Relics 4 1 True), (1, Cancel)]
     \<and> o_promises s' = [None, Some \<lparr>r_error = None, r_done = True, r_nonce = Some 4, r_data = ''found''\<rparr>]
     \<and> randomizeRelics_promise s' = None"
  using on_success_cancels_sender_only
    [of 1 "randomizeRelics_start 2 3 None"
        "\<lparr>r_error = None, r_done = True, r_nonce = Some 4, r_data = ''found''\<rparr>"]
  by (simp add: randomizeRelics_start_def start_worker_def postMessage_def error_thrown_def
      upt_rec numeral_2_eq_2 randomizeRelics_promise_def on_message_def)

text \<open>
  C3 as stated fails: after the success of worker 1 nothing is posted to worker 0 and the
  promise is pending; the success that worker 0 reports afterwards, with the smaller
  nonce, is the result.
\<close>

theorem cancellation_counterexample:
  "run [(1, \<lparr>r_error = None, r_done = True, r_nonce = Some 4, r_data = ''second dispatch''\<rparr>)]
       (randomizeRelics_start 2 3 None)
     = Inr \<lparr>o_nonce = 5, o_rounds = 1, o_done = True, o_running = [True, False],
            o_promises = [None, Some \<lparr>r_error = None, r_done = True, r_nonce = Some 4,
                                       r_data = ''second dispatch''\<rparr>],
            o_posted = [(0, Load), (0, Relics 3 1 True), (1, Load), (1, Relics 4 1 True),
                        (1, Cancel)]\<rparr>
   \<and> (case run [(1, \<lparr>r_error = None, r_done = True, r_nonce = Some 4, r_data = ''second dispatch''\<rparr>)]
           (randomizeRelics_start 2 3 None) of
        Inl e \<Rightarrow> None
      | Inr s \<Rightarrow> randomizeRelics_promise s) = None
   \<and> (case run [(1, \<lparr>r_error = None, r_done = True, r_nonce = Some 4, r_data = ''second dispatch''\<rparr>),
                (0, \<lparr>r_error = None, r_done = True, r_nonce = Some 3, r_data = ''first dispatch''\<rparr>)]
           (randomizeRelics_start 2 3 None) of
        Inl e \<Rightarrow> None
      | Inr s \<Rightarrow> randomizeRelics_promise s)
     = Some (Inr \<lparr>r_error = None, r_done = True, r_nonce = Some 3, r_data = ''first dispatch''\<rparr>)"
  by (simp add: randomizeRelics_then_def pick_def has_error_def randomizeRelics_start_def
      start_worker_def postMessage_def on_message_def error_thrown_def randomizeRelics_promise_def
      upt_rec numeral_2_eq_2)

subsection \<open>minifySolution: the score of a candidate\<close>

lemma sorted_last_Max:
  fixes xs :: "int list"
  assumes "sorted xs" "xs \<noteq> []"
  shows "last xs = Max (set xs)"
proof -
  have "sorted (butlast xs @ [last xs])" using assms by simp
  then have "\<forall>y \<in> set (butlast xs). y \<le> last xs" by (simp add: sorted_append)
  moreover have "set xs = set (butlast xs) \<union> {last xs}"
    using assms(2) by (metis append_butlast_last_id set_append list.set(1) list.set(2))
  ultimately have "\<forall>y \<in> set xs. y \<le> last xs" by auto
  then show ?thesis using assms(2) by (intro Max_eqI [symmetric]) auto
qed

lemma last_sort_key_Max:
  assumes "rs \<noteq> []"
  shows "q_depth (last (sort_key q_depth rs)) = Max (q_depth ` set rs)"
proof -
  let ?ys = "sort_key q_depth rs"
  have ne: "?ys \<noteq> []" using assms by (metis length_sort length_0_conv)
  have "q_depth (last ?ys) = last (map q_depth ?ys)" using ne by (simp add: last_map)
  also have "\<dots> = Max (set (map q_depth ?ys))"
    using ne by (intro sorted_last_Max) simp_all
  also have "\<dots> = Max (q_depth ` set rs)" by simp
  finally show ?thesis .
qed

lemma foldl_depth_sum:
  "foldl (\<lambda>w r. w + q_depth r) a rs = a + sum_list (map q_depth rs)"
  by (induction rs arbitrary: a) auto



lemma replaces_Initial: "replaces s Initial"
  by (simp add: replaces_def)

lemma minifySolution_depths:
  "(0 \<le> depth min' \<longrightarrow> (\<forall>s. minifySolution min' lock = Inr s \<longrightarrow> 0 \<le> depth s))
   \<and> (\<forall>s. minifySolution Initial lock = Inr s \<longrightarrow> 1 \<le> depth s)"
  "\<forall>r. requirement_of n = Inr r \<longrightarrow> 1 \<le> q_depth r"
  "\<forall>rs. requirements_of ns = Inr rs \<longrightarrow> (\<forall>r \<in> set rs. 1 \<le> q_depth r)"
  "0 \<le> depth min' \<longrightarrow> (\<forall>s. reduce_minifySolution min' locks = Inr s \<longrightarrow> 0 \<le> depth s)"
proof (induction min' lock and n and ns and min' locks
    rule: minifySolution_requirement_of_requirements_of_reduce_minifySolution.induct)
  case (1 min' lock)
  have c: "1 \<le> q_depth (last (sort_key q_depth rs))"
    if "requirements_of lock = Inr rs" "rs \<noteq> []" for rs
  proof -
    have "last (sort_key q_depth rs) \<in> set (sort_key q_depth rs)"
      using that(2) by (metis last_in_set length_sort length_0_conv)
    then show ?thesis using 1 that(1) by simp
  qed
  show ?case
  proof (intro conjI impI allI)
    fix s assume "0 \<le> depth min'" "minifySolution min' lock = Inr s"
    then show "0 \<le> depth s"
      using c by (auto simp: Let_def split: sum.splits if_splits)
  next
    fix s assume "minifySolution Initial lock = Inr s"
    then show "1 \<le> depth s"
      using c by (auto simp: Let_def replaces_Initial split: sum.splits if_splits)
  qed
next
  case (2 it)
  then show ?case by simp
next
  case (3 it locks)
  show ?case
  proof (intro allI impI)
    fix r assume "requirement_of (Node it (Some locks)) = Inr r"
    then obtain sol where "reduce_minifySolution Initial locks = Inr sol"
      "r = Requirement it (1 + depth sol) (Some sol)"
      by (auto split: sum.splits)
    then show "1 \<le> q_depth r" using 3 by simp
  qed
next
  case 4
  then show ?case by simp
next
  case (5 n ns)
  show ?case
  proof (intro allI impI ballI)
    fix rs r assume a: "requirements_of (n # ns) = Inr rs" "r \<in> set rs"
    then obtain r0 rs0 where "requirement_of n = Inr r0" "requirements_of ns = Inr rs0"
      "rs = r0 # rs0"
      by (auto split: sum.splits)
    then show "1 \<le> q_depth r" using 5 a(2) by auto
  qed
next
  case (6 min')
  then show ?case by simp
next
  case (7 min' lock locks)
  show ?case
  proof (intro allI impI)
    fix s assume a: "0 \<le> depth min'" "reduce_minifySolution min' (lock # locks) = Inr s"
    then obtain x where x: "minifySolution min' lock = Inr x" "reduce_minifySolution x locks = Inr s"
      by (simp del: minifySolution.simps split: sum.splits)
    have "0 \<le> depth x" using 7(1) a(1) x(1) by blast
    then show "0 \<le> depth s" using 7(2) [OF x(1)] x(2) by blast
  qed
qed

lemma minifySolution_via_Initial:
  "minifySolution min' lock =
     (case minifySolution Initial lock of
        Inl e \<Rightarrow> Inl e
      | Inr c \<Rightarrow> Inr (if replaces c min' then c else min'))"
  by (auto simp: Let_def replaces_Initial split: sum.splits)

lemma candidate_shape:
  assumes "minifySolution Initial lock = Inr s"
  shows "\<exists>rs. requirements_of lock = Inr rs \<and> rs \<noteq> []
     \<and> s = Solution (Max (q_depth ` set rs)) (sum_list (map q_depth rs))
           (of_int (sum_list (map q_depth rs)) / of_nat (length rs)) rs"
proof -
  obtain rs where rs: "requirements_of lock = Inr rs" "rs \<noteq> []"
    using assms by (auto split: sum.splits if_splits)
  then show ?thesis
    using assms by (simp add: Let_def replaces_Initial last_sort_key_Max foldl_depth_sum)
qed






subsection \<open>minifySolution: the selection among alternatives\<close>

lemma candidate_depth:
  assumes "minifySolution Initial lock = Inr c"
  shows "1 \<le> depth c \<and> (\<exists>d w a rs. c = Solution d w a rs)"
  using minifySolution_depths(1) [of Initial lock] candidate_shape [OF assms] assms by blast

lemma replaces_iff_score:
  assumes "1 \<le> depth m" "m = Solution d' w' a' rs'" "c = Solution d w a rs"
  shows "replaces c m \<longleftrightarrow> score c < score m"
  using assms by (auto simp: replaces_def score_def)

lemma reduce_minifySolution_append:
  "reduce_minifySolution m (xs @ ys) =
     (case reduce_minifySolution m xs of
        Inl e \<Rightarrow> Inl e
      | Inr m' \<Rightarrow> reduce_minifySolution m' ys)"
  by (induction xs arbitrary: m) (simp_all del: minifySolution.simps split: sum.splits)

lemma reduce_first_minimum:
  assumes "locks \<noteq> []"
    and "\<forall>lock \<in> set locks. \<exists>c. minifySolution Initial lock = Inr c"
  shows "\<exists>i s. i < length locks
     \<and> reduce_minifySolution Initial locks = Inr s
     \<and> minifySolution Initial (locks ! i) = Inr s
     \<and> (\<forall>j c. j < length locks \<and> minifySolution Initial (locks ! j) = Inr c \<longrightarrow> score s \<le> score c)
     \<and> (\<forall>j c. j < i \<and> minifySolution Initial (locks ! j) = Inr c \<longrightarrow> score s < score c)"
  using assms
proof (induction locks rule: rev_induct)
  case Nil
  then show ?case by simp
next
  case (snoc l locks)
  obtain c where c: "minifySolution Initial l = Inr c" using snoc.prems(2) by auto
  show ?case
  proof (cases "locks = []")
    case True
    have "reduce_minifySolution Initial [l] = Inr c"
      using c by (simp del: minifySolution.simps)
    then show ?thesis using True c
      by (intro exI [of _ 0] exI [of _ c]) (simp del: minifySolution.simps)
  next
    case False
    then obtain i s where i: "i < length locks"
      and r: "reduce_minifySolution Initial locks = Inr s"
      and si: "minifySolution Initial (locks ! i) = Inr s"
      and le: "\<forall>j c. j < length locks \<and> minifySolution Initial (locks ! j) = Inr c \<longrightarrow> score s \<le> score c"
      and lt: "\<forall>j c. j < i \<and> minifySolution Initial (locks ! j) = Inr c \<longrightarrow> score s < score c"
      using snoc.IH snoc.prems(2) by auto
    have sd: "1 \<le> depth s" and ss: "\<exists>d w a rs. s = Solution d w a rs"
      using candidate_depth [OF si] by auto
    have cs: "\<exists>d w a rs. c = Solution d w a rs" using candidate_depth [OF c] by auto
    have rep: "replaces c s \<longleftrightarrow> score c < score s"
      using replaces_iff_score sd ss cs by blast
    have step: "minifySolution s l = Inr (if replaces c s then c else s)"
      using minifySolution_via_Initial [of s l] c by (simp del: minifySolution.simps)
    have red: "reduce_minifySolution Initial (locks @ [l]) = Inr (if replaces c s then c else s)"
      using r step by (simp add: reduce_minifySolution_append del: minifySolution.simps)
    have nth_old: "(locks @ [l]) ! j = locks ! j" if "j < length locks" for j
      using that by (simp add: nth_append)
    show ?thesis
    proof (cases "replaces c s")
      case True
      have 1: "\<forall>j c'. j < length (locks @ [l]) \<and> minifySolution Initial ((locks @ [l]) ! j) = Inr c'
                 \<longrightarrow> score c \<le> score c'"
      proof (intro allI impI)
        fix j c' assume a: "j < length (locks @ [l]) \<and> minifySolution Initial ((locks @ [l]) ! j) = Inr c'"
        show "score c \<le> score c'"
        proof (cases "j < length locks")
          case jl: True
          then have "score s \<le> score c'" using le a nth_old by auto
          then show ?thesis using rep True by auto
        next
          case False
          then have "j = length locks" using a by simp
          then show ?thesis using a c by simp
        qed
      qed
      have 2: "\<forall>j c'. j < length locks \<and> minifySolution Initial ((locks @ [l]) ! j) = Inr c'
                 \<longrightarrow> score c < score c'"
      proof (intro allI impI)
        fix j c' assume a: "j < length locks \<and> minifySolution Initial ((locks @ [l]) ! j) = Inr c'"
        then have "score s \<le> score c'" using le nth_old by auto
        then show "score c < score c'" using rep True by auto
      qed
      show ?thesis
        apply (rule exI [of _ "length locks"], rule exI [of _ c])
        using red True c 1 2 by (simp del: minifySolution.simps)
    next
      case nrep: False
      have 1: "\<forall>j c'. j < length (locks @ [l]) \<and> minifySolution Initial ((locks @ [l]) ! j) = Inr c'
                 \<longrightarrow> score s \<le> score c'"
      proof (intro allI impI)
        fix j c' assume a: "j < length (locks @ [l]) \<and> minifySolution Initial ((locks @ [l]) ! j) = Inr c'"
        show "score s \<le> score c'"
        proof (cases "j < length locks")
          case jl: True
          then show ?thesis using le a nth_old by auto
        next
          case False
          then have "j = length locks" using a by simp
          then have "c' = c" using a c by simp
          then show ?thesis using rep nrep by auto
        qed
      qed
      have 2: "\<forall>j c'. j < i \<and> minifySolution Initial ((locks @ [l]) ! j) = Inr c'
                 \<longrightarrow> score s < score c'"
        using lt i nth_old by auto
      have 3: "minifySolution Initial ((locks @ [l]) ! i) = Inr s"
        using si i nth_old by simp
      show ?thesis
        apply (rule exI [of _ i], rule exI [of _ s])
        using red nrep i 1 2 3 by (simp del: minifySolution.simps)
    qed
  qed
qed



subsection \<open>collectAbilities and pruneSubsets against the specification\<close>

lemma nodes_of_self: "n \<in> nodes_of n"
  by (cases n) simp

lemma item_in_abilities: "q_item n \<in> abilities_of n"
  by (cases n) simp

lemma nodes_of_child:
  "r \<in> set rs \<Longrightarrow> nodes_of r \<subseteq> nodes_of (Requirement it d (Some (Solution sd sw sa rs)))"
  by auto

lemma complete_child:
  "complete (Requirement it d (Some (Solution sd sw sa rs))) \<Longrightarrow> r \<in> set rs \<Longrightarrow> complete r"
  unfolding complete_def using nodes_of_child by blast

lemma agrees_child:
  "agrees cl (Requirement it d (Some (Solution sd sw sa rs))) \<Longrightarrow> r \<in> set rs \<Longrightarrow> agrees cl r"
  unfolding agrees_def using nodes_of_child by blast

lemma complete_not_Initial: "\<not> complete (Requirement it d (Some Initial))"
  by (simp add: complete_def)

lemma agrees_self: "agrees cl n \<Longrightarrow> cl (q_item n) = abilities_of n"
  unfolding agrees_def using nodes_of_self by auto

lemma cache_ok_upd: "cache_ok cl m \<Longrightarrow> s = cl it \<Longrightarrow> cache_ok cl (m(it \<mapsto> s))"
  by (simp add: cache_ok_def)

lemma collect_correct:
  "complete n \<and> agrees cl n \<and> cache_ok cl m \<longrightarrow>
     (\<exists>m'. collectAbilities n m = Inr (cl (q_item n), m') \<and> cache_ok cl m')"
  "(\<forall>n \<in> set ns. complete n \<and> agrees cl n) \<and> cache_ok cl m \<longrightarrow>
     (\<exists>m'. collect_each ns ab m = Inr (ab \<union> (\<Union>n \<in> set ns. abilities_of n), m') \<and> cache_ok cl m')"
proof (induction n m and ns ab m rule: collectAbilities_collect_each.induct)
  case (1 it d sol m)
  show ?case
  proof (intro impI)
    assume a: "complete (Requirement it d sol) \<and> agrees cl (Requirement it d sol) \<and> cache_ok cl m"
    then have cl: "cl it = abilities_of (Requirement it d sol)"
      using agrees_self [of cl "Requirement it d sol"] by simp
    show "\<exists>m'. collectAbilities (Requirement it d sol) m = Inr (cl (q_item (Requirement it d sol)), m')
       \<and> cache_ok cl m'"
    proof (cases "m it")
      case (Some s)
      then have "s = cl it" using a by (simp add: cache_ok_def)
      then show ?thesis using Some a by simp
    next
      case None
      show ?thesis
      proof (cases sol)
        case n: None
        then show ?thesis using None a cl by (simp add: cache_ok_upd)
      next
        case (Some s)
        show ?thesis
        proof (cases s)
          case Initial
          then show ?thesis using Some a complete_not_Initial by blast
        next
          case (Solution sd sw sa rs)
          have ch: "\<forall>n \<in> set rs. complete n \<and> agrees cl n"
            using a Some Solution complete_child agrees_child by blast
          obtain m' where m': "collect_each rs {it} m = Inr ({it} \<union> (\<Union>n \<in> set rs. abilities_of n), m')"
            "cache_ok cl m'"
            using 1 [OF None Some Solution] ch a by blast
          have "{it} \<union> (\<Union>n \<in> set rs. abilities_of n) = cl it"
            using cl Some Solution by simp
          then show ?thesis using None Some Solution m' by (simp add: cache_ok_upd)
        qed
      qed
    qed
  qed
next
  case (2 abilities m)
  then show ?case by simp
next
  case (3 n ns abilities m)
  show ?case
  proof (intro impI)
    assume a: "(\<forall>n \<in> set (n # ns). complete n \<and> agrees cl n) \<and> cache_ok cl m"
    then obtain m1 where m1: "collectAbilities n m = Inr (cl (q_item n), m1)" "cache_ok cl m1"
      using 3(1) by auto
    have c: "cl (q_item n) = abilities_of n" using a agrees_self by simp
    obtain m' where m': "collect_each ns (insert (q_item n) abilities \<union> cl (q_item n)) m1
        = Inr (insert (q_item n) abilities \<union> cl (q_item n) \<union> (\<Union>n \<in> set ns. abilities_of n), m')"
      "cache_ok cl m'"
      using 3(2) [OF m1(1) refl] a m1(2) by auto
    have "insert (q_item n) abilities \<union> cl (q_item n) \<union> (\<Union>n \<in> set ns. abilities_of n)
       = abilities \<union> (\<Union>n \<in> set (n # ns). abilities_of n)"
      using c item_in_abilities [of n] by auto
    then show "\<exists>m'. collect_each (n # ns) abilities m
        = Inr (abilities \<union> (\<Union>n \<in> set (n # ns). abilities_of n), m') \<and> cache_ok cl m'"
      using m1 m' by simp
  qed
qed

lemma prune_later_correct:
  "(\<forall>n \<in> set ns. complete n \<and> agrees cl n) \<Longrightarrow> cache_ok cl m \<Longrightarrow>
     \<exists>m'. prune_later ns ab m = Inr (filter (\<lambda>n. \<not> abilities_of n \<subseteq> ab) ns, m') \<and> cache_ok cl m'"
proof (induction ns arbitrary: m)
  case Nil
  then show ?case by simp
next
  case (Cons n ns)
  obtain m1 where m1: "collectAbilities n m = Inr (cl (q_item n), m1)" "cache_ok cl m1"
    using collect_correct(1) [of n cl m] Cons.prems by auto
  have c: "cl (q_item n) = abilities_of n" using Cons.prems agrees_self by simp
  obtain m' where m': "prune_later ns ab m1 = Inr (filter (\<lambda>n. \<not> abilities_of n \<subseteq> ab) ns, m')"
    "cache_ok cl m'"
    using Cons.IH [of m1] Cons.prems m1(2) by auto
  show ?case using m1 m' c by simp
qed

lemma spec_prune_fields: "q_item (spec_prune n) = q_item n \<and> q_depth (spec_prune n) = q_depth n"
  by (cases n rule: spec_prune.cases) auto

lemma spec_prune_Initial:
  "q_solution (spec_prune n) = Some Initial \<longleftrightarrow> q_solution n = Some Initial"
  by (cases n rule: spec_prune.cases) auto

lemma spec_prune_abilities:
  "abilities_of (spec_prune n) = abilities_of n"
  "(\<Union>r \<in> set (spec_keep seen ns). abilities_of r) \<union> seen = (\<Union>r \<in> set ns. abilities_of r) \<union> seen"
proof (induction n and seen ns rule: spec_prune_spec_keep.induct)
  case (3 it d sd sw sa rs)
  then show ?case by simp
next
  case (5 seen n ns)
  show ?case
  proof (cases "abilities_of n \<subseteq> seen")
    case True
    then show ?thesis using 5(1) by auto
  next
    case False
    have "(\<Union>r \<in> set (spec_keep (seen \<union> abilities_of n) ns). abilities_of r) \<union> (seen \<union> abilities_of n)
        = (\<Union>r \<in> set ns. abilities_of r) \<union> (seen \<union> abilities_of n)"
      using 5(3) [OF False] .
    then show ?thesis using False 5(2) [OF False] by auto
  qed
qed simp_all

lemma spec_prune_nodes:
  "nodes_of (spec_prune n) \<subseteq> spec_prune ` nodes_of n"
  "(\<Union>r \<in> set (spec_keep seen ns). nodes_of r) \<subseteq> spec_prune ` (\<Union>r \<in> set ns. nodes_of r)"
proof (induction n and seen ns rule: spec_prune_spec_keep.induct)
  case (3 it d sd sw sa rs)
  have "(\<Union>r \<in> set (spec_keep {} (sort_key (\<lambda>r. - q_depth r) rs)). nodes_of r)
      \<subseteq> spec_prune ` (\<Union>r \<in> set rs. nodes_of r)"
    using 3 by simp
  then show ?case by auto
next
  case (5 seen n ns)
  have split: "(\<Union>r \<in> set (n # ns). nodes_of r) = nodes_of n \<union> (\<Union>r \<in> set ns. nodes_of r)"
    by simp
  show ?case
  proof (cases "abilities_of n \<subseteq> seen")
    case True
    have "(\<Union>r \<in> set (spec_keep seen ns). nodes_of r) \<subseteq> spec_prune ` (\<Union>r \<in> set ns. nodes_of r)"
      using 5(1) [OF True] .
    then show ?thesis unfolding split image_Un using True by auto
  next
    case False
    have 1: "nodes_of (spec_prune n) \<subseteq> spec_prune ` nodes_of n" using 5(2) [OF False] .
    have 2: "(\<Union>r \<in> set (spec_keep (seen \<union> abilities_of n) ns). nodes_of r)
       \<subseteq> spec_prune ` (\<Union>r \<in> set ns. nodes_of r)"
      using 5(3) [OF False] .
    have "(\<Union>r \<in> set (spec_keep seen (n # ns)). nodes_of r)
       = nodes_of (spec_prune n) \<union> (\<Union>r \<in> set (spec_keep (seen \<union> abilities_of n) ns). nodes_of r)"
      using False by simp
    then show ?thesis unfolding split image_Un using 1 2 by blast
  qed
qed simp_all

lemma complete_spec_prune: "complete n \<Longrightarrow> complete (spec_prune n)"
  unfolding complete_def using spec_prune_nodes(1) [of n] spec_prune_Initial by blast

lemma agrees_spec_prune: "agrees cl n \<Longrightarrow> agrees cl (spec_prune n)"
  unfolding agrees_def
proof
  fix a
  assume c: "\<forall>a \<in> nodes_of n. abilities_of a = cl (q_item a)" and a: "a \<in> nodes_of (spec_prune n)"
  obtain a' where "a = spec_prune a'" "a' \<in> nodes_of n"
    using a spec_prune_nodes(1) [of n] by blast
  then show "abilities_of a = cl (q_item a)"
    using c by (simp add: spec_prune_abilities(1) spec_prune_fields)
qed

lemma consistent_spec_prune: "consistent n \<Longrightarrow> consistent (spec_prune n)"
  unfolding consistent_def
proof (intro ballI impI)
  fix a b
  assume c: "\<forall>a \<in> nodes_of n. \<forall>b \<in> nodes_of n. q_item a = q_item b \<longrightarrow> abilities_of a = abilities_of b"
    and a: "a \<in> nodes_of (spec_prune n)" and b: "b \<in> nodes_of (spec_prune n)"
    and e: "q_item a = q_item b"
  obtain a' b' where ab: "a = spec_prune a'" "a' \<in> nodes_of n" "b = spec_prune b'" "b' \<in> nodes_of n"
    using a b spec_prune_nodes(1) [of n] by blast
  then have "q_item a' = q_item b'" using e by (simp add: spec_prune_fields)
  then have "abilities_of a' = abilities_of b'" using c ab by blast
  then show "abilities_of a = abilities_of b"
    using ab by (simp add: spec_prune_abilities(1))
qed

lemma spec_keep_filter:
  "S0 \<subseteq> S \<Longrightarrow> spec_keep S (filter (\<lambda>x. \<not> abilities_of x \<subseteq> S0) ns) = spec_keep S ns"
proof (induction ns arbitrary: S)
  case Nil
  then show ?case by simp
next
  case (Cons x ns)
  show ?case
  proof (cases "abilities_of x \<subseteq> S0")
    case True
    then have "abilities_of x \<subseteq> S" using Cons.prems by auto
    then show ?thesis using True Cons by simp
  next
    case False
    have "S0 \<subseteq> S \<union> abilities_of x" using Cons.prems by auto
    then show ?thesis using False Cons by simp
  qed
qed

lemma spec_keep_append:
  "spec_keep seen (xs @ ys)
     = spec_keep seen xs @ spec_keep (seen \<union> (\<Union>r \<in> set xs. abilities_of r)) ys"
proof (induction xs arbitrary: seen)
  case Nil
  then show ?case by simp
next
  case (Cons x xs)
  show ?case
  proof (cases "abilities_of x \<subseteq> seen")
    case True
    then have "seen \<union> (\<Union>r \<in> set (x # xs). abilities_of r) = seen \<union> (\<Union>r \<in> set xs. abilities_of r)"
      by auto
    then show ?thesis using True Cons [of seen] by simp
  next
    case False
    have "seen \<union> (\<Union>r \<in> set (x # xs). abilities_of r)
        = seen \<union> abilities_of x \<union> (\<Union>r \<in> set xs. abilities_of r)"
      by auto
    then show ?thesis using False Cons [of "seen \<union> abilities_of x"] by simp
  qed
qed

lemma prune_correct:
  "complete n \<and> agrees cl n \<and> cache_ok cl m \<longrightarrow>
     (\<exists>m'. pruneSubsets n m = Inr (spec_prune n, m') \<and> cache_ok cl m')"
  "(\<forall>n \<in> set ns. complete n \<and> agrees cl n \<and> \<not> abilities_of n \<subseteq> ab) \<and> cache_ok cl m \<longrightarrow>
     (\<exists>m'. prune_loop ns ab m = Inr (spec_keep ab ns, m') \<and> cache_ok cl m')"
proof (induction n m and ns ab m rule: pruneSubsets_prune_loop.induct)
  case (1 it d m)
  then show ?case by simp
next
  case (2 it d m)
  then show ?case using complete_not_Initial by blast
next
  case (3 it d sd sw sa rs m)
  show ?case
  proof (intro impI)
    let ?n = "Requirement it d (Some (Solution sd sw sa rs))"
    let ?sorted = "sort_key (\<lambda>r. - q_depth r) rs"
    assume a: "complete ?n \<and> agrees cl ?n \<and> cache_ok cl m"
    have "\<forall>n \<in> set ?sorted. complete n \<and> agrees cl n \<and> \<not> abilities_of n \<subseteq> {}"
      using a complete_child agrees_child item_in_abilities by fastforce
    then obtain m' where "prune_loop ?sorted {} m = Inr (spec_keep {} ?sorted, m')" "cache_ok cl m'"
      using 3 a by blast
    then show "\<exists>m'. pruneSubsets ?n m = Inr (spec_prune ?n, m') \<and> cache_ok cl m'"
      by simp
  qed
next
  case (4 abilities m)
  then show ?case by simp
next
  case (5 n ns abilities m)
  show ?case
  proof (intro impI)
    assume a: "(\<forall>n \<in> set (n # ns). complete n \<and> agrees cl n \<and> \<not> abilities_of n \<subseteq> abilities)
       \<and> cache_ok cl m"
    obtain m1 where m1: "pruneSubsets n m = Inr (spec_prune n, m1)" "cache_ok cl m1"
      using 5(1) a by auto
    have pn: "complete (spec_prune n)" "agrees cl (spec_prune n)"
      using a complete_spec_prune agrees_spec_prune by auto
    have c: "cl (q_item (spec_prune n)) = abilities_of n"
      using agrees_self [OF pn(2)] by (simp add: spec_prune_abilities(1))
    obtain m2 where m2: "collectAbilities (spec_prune n) m1 = Inr (abilities_of n, m2)" "cache_ok cl m2"
      using collect_correct(1) [of "spec_prune n" cl m1] pn m1(2) c by auto
    let ?ab = "abilities \<union> abilities_of n"
    let ?ns = "filter (\<lambda>x. \<not> abilities_of x \<subseteq> ?ab) ns"
    obtain m3 where m3: "prune_later ns ?ab m2 = Inr (?ns, m3)" "cache_ok cl m3"
      using prune_later_correct [of ns cl m2 ?ab] a m2(2) by auto
    have "\<forall>x \<in> set ?ns. complete x \<and> agrees cl x \<and> \<not> abilities_of x \<subseteq> ?ab"
      using a by auto
    then obtain m4 where m4: "prune_loop ?ns ?ab m3 = Inr (spec_keep ?ab ?ns, m4)" "cache_ok cl m4"
      using 5(2) [OF m1(1) refl m2(1) refl m3(1) refl] m3(2) by blast
    have "spec_keep ?ab ?ns = spec_keep ?ab ns" by (rule spec_keep_filter) simp
    moreover have "spec_keep abilities (n # ns) = spec_prune n # spec_keep ?ab ns"
      using a by simp
    ultimately show "\<exists>m'. prune_loop (n # ns) abilities m = Inr (spec_keep abilities (n # ns), m')
       \<and> cache_ok cl m'"
      using m1 m2 m3 m4 by simp
  qed
qed

lemma consistent_agrees:
  assumes "consistent n"
  shows "agrees (\<lambda>it. \<Union> {abilities_of a | a. a \<in> nodes_of n \<and> q_item a = it}) n"
  unfolding agrees_def
proof
  fix a assume a: "a \<in> nodes_of n"
  have "{abilities_of b | b. b \<in> nodes_of n \<and> q_item b = q_item a} = {abilities_of a}"
    using assms a unfolding consistent_def by blast
  then show "abilities_of a = \<Union> {abilities_of b | b. b \<in> nodes_of n \<and> q_item b = q_item a}"
    by simp
qed

lemma pruneSubsets_spec:
  assumes "complete n" "consistent n"
  shows "\<exists>m'. pruneSubsets n Map.empty = Inr (spec_prune n, m')"
proof -
  let ?cl = "\<lambda>it. \<Union> {abilities_of a | a. a \<in> nodes_of n \<and> q_item a = it}"
  have "cache_ok ?cl Map.empty" by (simp add: cache_ok_def)
  then show ?thesis
    using prune_correct(1) [of n ?cl Map.empty] assms consistent_agrees by blast
qed

lemma spec_keep_depths: "q_depth ` set (spec_keep seen ns) \<subseteq> q_depth ` set ns"
proof (induction ns arbitrary: seen)
  case Nil
  then show ?case by simp
next
  case (Cons x ns)
  show ?case
  proof (cases "abilities_of x \<subseteq> seen")
    case True
    then show ?thesis using Cons [of seen] by auto
  next
    case False
    then show ?thesis using Cons [of "seen \<union> abilities_of x"] spec_prune_fields [of x] by auto
  qed
qed

lemma sorted_spec_keep:
  "sorted (map (\<lambda>r. - q_depth r) ns) \<Longrightarrow> sorted (map (\<lambda>r. - q_depth r) (spec_keep seen ns))"
proof (induction ns arbitrary: seen)
  case Nil
  then show ?case by simp
next
  case (Cons x ns)
  have s: "sorted (map (\<lambda>r. - q_depth r) ns)"
    using Cons.prems by simp
  have le: "\<forall>y \<in> set ns. q_depth y \<le> q_depth x"
    using Cons.prems by simp
  show ?case
  proof (cases "abilities_of x \<subseteq> seen")
    case True
    then show ?thesis using Cons.IH [OF s, of seen] by simp
  next
    case False
    let ?k = "spec_keep (seen \<union> abilities_of x) ns"
    have "\<forall>y \<in> set ?k. q_depth y \<le> q_depth x"
    proof
      fix y assume "y \<in> set ?k"
      then have "q_depth y \<in> q_depth ` set ns"
        by (rule subsetD [OF spec_keep_depths imageI])
      then obtain z where "z \<in> set ns" "q_depth y = q_depth z" by (auto simp: image_iff)
      then show "q_depth y \<le> q_depth x" using le by simp
    qed
    then have 1: "\<forall>y \<in> set ?k. - q_depth (spec_prune x) \<le> - q_depth y"
      using spec_prune_fields [of x] by simp
    have 2: "sorted (map (\<lambda>r. - q_depth r) ?k)"
      using Cons.IH [OF s] .
    have "spec_keep seen (x # ns) = spec_prune x # ?k" using False by simp
    then show ?thesis using 1 2 by simp
  qed
qed

lemma spec_prune_idem:
  "spec_prune (spec_prune n) = spec_prune n"
  "spec_keep seen (spec_keep seen ns) = spec_keep seen ns"
proof (induction n and seen ns rule: spec_prune_spec_keep.induct)
  case (3 it d sd sw sa rs)
  let ?k = "spec_keep {} (sort_key (\<lambda>r. - q_depth r) rs)"
  have "sorted (map (\<lambda>r. - q_depth r) ?k)"
    by (intro sorted_spec_keep) simp
  then have "sort_key (\<lambda>r. - q_depth r) ?k = ?k" by (rule sort_key_id_if_sorted)
  then show ?case using 3 by simp
next
  case (5 seen n ns)
  show ?case
  proof (cases "abilities_of n \<subseteq> seen")
    case True
    then show ?thesis using 5(1) by simp
  next
    case False
    then show ?thesis
      using 5(2) [OF False] 5(3) [OF False] by (simp add: spec_prune_abilities(1))
  qed
qed simp_all

text \<open>
  C6, as the code has it. On a tree in which every solution has its requirements and in
  which nodes with the same item have the same abilities, \<open>pruneSubsets\<close> sorts the
  requirements of the node by descending depth and leaves, at every position of the
  sorted array, what the specification says: the node \<open>x\<close> there is removed if and only if
  its abilities are among those of the nodes before it, and otherwise it stays, pruned in
  turn; the nodes before and after it are treated in the same way.
\<close>

theorem pruneSubsets_drops_covered_nodes:
  assumes "complete node" "consistent node"
    and "q_solution node = Some (Solution sd sw sa rs)"
    and "sort_key (\<lambda>r. - q_depth r) rs = before @ x # after"
  shows "\<exists>m'. pruneSubsets node Map.empty =
      Inr (Requirement (q_item node) (q_depth node) (Some (Solution sd sw sa
             (spec_keep {} before
              @ (if abilities_of x \<subseteq> (\<Union>r \<in> set before. abilities_of r) then []
                 else [spec_prune x])
              @ spec_keep (\<Union>r \<in> set (before @ [x]). abilities_of r) after))), m')"
proof -
  obtain m' where m': "pruneSubsets node Map.empty = Inr (spec_prune node, m')"
    using pruneSubsets_spec [OF assms(1,2)] by blast
  have n: "node = Requirement (q_item node) (q_depth node) (Some (Solution sd sw sa rs))"
    using assms(3) by (cases node) simp
  have "spec_keep {} (before @ x # after)
      = spec_keep {} before
        @ (if abilities_of x \<subseteq> (\<Union>r \<in> set before. abilities_of r) then []
           else [spec_prune x])
        @ spec_keep (\<Union>r \<in> set (before @ [x]). abilities_of r) after"
  proof (cases "abilities_of x \<subseteq> (\<Union>r \<in> set before. abilities_of r)")
    case True
    then have "(\<Union>r \<in> set (before @ [x]). abilities_of r) = (\<Union>r \<in> set before. abilities_of r)"
      by auto
    then show ?thesis using True by (simp add: spec_keep_append)
  next
    case False
    have "(\<Union>r \<in> set (before @ [x]). abilities_of r)
        = (\<Union>r \<in> set before. abilities_of r) \<union> abilities_of x"
      by auto
    then show ?thesis using False by (simp add: spec_keep_append)
  qed
  then have "spec_prune node = Requirement (q_item node) (q_depth node) (Some (Solution sd sw sa
             (spec_keep {} before
              @ (if abilities_of x \<subseteq> (\<Union>r \<in> set before. abilities_of r) then []
                 else [spec_prune x])
              @ spec_keep (\<Union>r \<in> set (before @ [x]). abilities_of r) after)))"
    using assms(4) by (subst n) simp
  then show ?thesis using m' by simp
qed

theorem pruneSubsets_drops_covered_nodes_witness:
  "complete (Requirement ''T'' 3 (Some (Solution 2 4 (4 / 3)
      [Requirement ''P'' 2 (Some (Solution 1 1 1 [Requirement ''A'' 1 None])),
       Requirement ''A'' 1 None, Requirement ''C'' 1 None])))
   \<and> consistent (Requirement ''T'' 3 (Some (Solution 2 4 (4 / 3)
      [Requirement ''P'' 2 (Some (Solution 1 1 1 [Requirement ''A'' 1 None])),
       Requirement ''A'' 1 None, Requirement ''C'' 1 None])))
   \<and> (\<exists>m'. pruneSubsets (Requirement ''T'' 3 (Some (Solution 2 4 (4 / 3)
      [Requirement ''P'' 2 (Some (Solution 1 1 1 [Requirement ''A'' 1 None])),
       Requirement ''A'' 1 None, Requirement ''C'' 1 None]))) Map.empty
     = Inr (Requirement ''T'' 3 (Some (Solution 2 4 (4 / 3)
      [Requirement ''P'' 2 (Some (Solution 1 1 1 [Requirement ''A'' 1 None])),
       Requirement ''C'' 1 None])), m'))"
proof -
  let ?P = "Requirement ''P'' 2 (Some (Solution 1 1 1 [Requirement ''A'' 1 None]))"
  let ?rs = "[?P, Requirement ''A'' 1 None, Requirement ''C'' 1 None]"
  let ?T = "Requirement ''T'' 3 (Some (Solution 2 4 (4 / 3) ?rs))"
  have c: "complete ?T" by (simp add: complete_def)
  have k: "consistent ?T" by (simp add: consistent_def)
  have s: "sort_key (\<lambda>r. - q_depth r) ?rs = [?P] @ Requirement ''A'' 1 None # [Requirement ''C'' 1 None]"
    by simp
  show ?thesis
    using pruneSubsets_drops_covered_nodes [OF c k _ s, of 2 4 "4 / 3"] c k by simp
qed

text \<open>
  C6 as stated fails where the same item stands on nodes with different abilities,
  because the map keeps, for an item, the set collected at its first node. In the tree
  that \<open>minifySolution\<close> returns here, the requirement \<open>A\<close> of depth 2 is removed (the map
  holds \<open>{A}\<close> for \<open>A\<close>, from the leaf below \<open>P\<close>) although it brings the ability \<open>C\<close>, which
  \<open>P\<close> does not have.
\<close>

theorem pruneSubsets_memo_counterexample:
  "reduce_minifySolution Initial
     [[Node ''T'' (Some [[Node ''P'' (Some [[Node ''A'' None]]),
                          Node ''A'' (Some [[Node ''C'' None]])]])]]
     = Inr (Solution 3 3 3 [Requirement ''T'' 3 (Some (Solution 2 4 2
         [Requirement ''P'' 2 (Some (Solution 1 1 1 [Requirement ''A'' 1 None])),
          Requirement ''A'' 2 (Some (Solution 1 1 1 [Requirement ''C'' 1 None]))]))])
   \<and> map_sum id fst (pruneSubsets (Requirement ''T'' 3 (Some (Solution 2 4 2
         [Requirement ''P'' 2 (Some (Solution 1 1 1 [Requirement ''A'' 1 None])),
          Requirement ''A'' 2 (Some (Solution 1 1 1 [Requirement ''C'' 1 None]))]))) Map.empty)
     = Inr (Requirement ''T'' 3 (Some (Solution 2 4 2
         [Requirement ''P'' 2 (Some (Solution 1 1 1 [Requirement ''A'' 1 None]))])))
   \<and> ''C'' \<in> abilities_of (Requirement ''A'' 2 (Some (Solution 1 1 1 [Requirement ''C'' 1 None])))
   \<and> ''C'' \<notin> abilities_of (Requirement ''P'' 2 (Some (Solution 1 1 1 [Requirement ''A'' 1 None])))"
  by (simp add: replaces_def Let_def)

lemma reduce_keeps_minimum:
  assumes "1 \<le> depth s" "s = Solution d w a rs"
    and "\<forall>lock \<in> set locks. \<exists>c. minifySolution Initial lock = Inr c \<and> score s \<le> score c"
  shows "reduce_minifySolution s locks = Inr s"
  using assms(3)
proof (induction locks)
  case Nil
  then show ?case by simp
next
  case (Cons lock locks)
  obtain c where c: "minifySolution Initial lock = Inr c" "score s \<le> score c"
    using Cons.prems by auto
  obtain d' w' a' rs' where "c = Solution d' w' a' rs'" using candidate_depth [OF c(1)] by blast
  then have "replaces c s \<longleftrightarrow> score c < score s"
    using replaces_iff_score [OF assms(1,2)] by blast
  then have "\<not> replaces c s" using c(2) by auto
  then have "minifySolution s lock = Inr s"
    using minifySolution_via_Initial [of s lock] c(1) by (simp del: minifySolution.simps)
  then show ?case using Cons by (simp del: minifySolution.simps)
qed

lemma collapsed_solutions_ok:
  assumes "collapsed_solutions solutions = Inr cs"
  shows "\<forall>c \<in> set cs. collapsed_ok c"
proof -
  obtain simplified where "cs = map collapseSolution simplified"
    using assms by (auto simp: collapsed_solutions_def simp del: minifySolution.simps
        split: sum.splits option.splits)
  then show ?thesis by (simp add: collapseSolution_def collapse_from_ok)
qed

text \<open>
  C7, as the code has it. The three stages do not compose into a function from trees to
  trees of one kind, so each is taken where it can be applied again. Selection: reducing
  the same alternatives once more, from the solution already selected, returns that
  solution. Pruning: on a tree in which every solution has its requirements and nodes with
  the same item have the same abilities, pruning the pruned tree again returns it
  unchanged. Collapsing: no node of the collapsed tree that \<open>renderSolutions\<close> renders has
  exactly one sub-node, so that no chain is left to merge.
\<close>

theorem minimization_idempotent:
  "(locks \<noteq> [] \<and> (\<forall>lock \<in> set locks. \<exists>c. minifySolution Initial lock = Inr c) \<longrightarrow>
      (\<exists>s. reduce_minifySolution Initial locks = Inr s \<and> reduce_minifySolution s locks = Inr s))
   \<and> (complete node \<and> consistent node \<longrightarrow>
      (\<exists>pruned m1 m2. pruneSubsets node Map.empty = Inr (pruned, m1)
         \<and> pruneSubsets pruned Map.empty = Inr (pruned, m2)))
   \<and> (\<forall>cs. collapsed_solutions solutions = Inr cs \<longrightarrow> (\<forall>c \<in> set cs. collapsed_ok c))"
proof (intro conjI impI)
  assume a: "locks \<noteq> [] \<and> (\<forall>lock \<in> set locks. \<exists>c. minifySolution Initial lock = Inr c)"
  then obtain i s where i: "i < length locks"
    and r: "reduce_minifySolution Initial locks = Inr s"
    and si: "minifySolution Initial (locks ! i) = Inr s"
    and le: "\<forall>j c. j < length locks \<and> minifySolution Initial (locks ! j) = Inr c \<longrightarrow> score s \<le> score c"
    using reduce_first_minimum [of locks] by blast
  obtain d w a' rs where s: "1 \<le> depth s" "s = Solution d w a' rs"
    using candidate_depth [OF si] by blast
  have "\<forall>lock \<in> set locks. \<exists>c. minifySolution Initial lock = Inr c \<and> score s \<le> score c"
  proof
    fix lock assume l: "lock \<in> set locks"
    then obtain c where c: "minifySolution Initial lock = Inr c" using a by blast
    obtain j where "j < length locks" "locks ! j = lock" using l by (auto simp: in_set_conv_nth)
    then have "score s \<le> score c" using le c by blast
    then show "\<exists>c. minifySolution Initial lock = Inr c \<and> score s \<le> score c" using c by blast
  qed
  then have "reduce_minifySolution s locks = Inr s"
    using reduce_keeps_minimum [OF s] by blast
  then show "\<exists>s. reduce_minifySolution Initial locks = Inr s \<and> reduce_minifySolution s locks = Inr s"
    using r by blast
next
  assume a: "complete node \<and> consistent node"
  obtain m1 where m1: "pruneSubsets node Map.empty = Inr (spec_prune node, m1)"
    using pruneSubsets_spec a by blast
  obtain m2 where "pruneSubsets (spec_prune node) Map.empty = Inr (spec_prune (spec_prune node), m2)"
    using pruneSubsets_spec [of "spec_prune node"] complete_spec_prune consistent_spec_prune a
    by blast
  then have m2: "pruneSubsets (spec_prune node) Map.empty = Inr (spec_prune node, m2)"
    by (simp add: spec_prune_idem(1))
  show "\<exists>pruned m1 m2. pruneSubsets node Map.empty = Inr (pruned, m1)
         \<and> pruneSubsets pruned Map.empty = Inr (pruned, m2)"
    using m1 m2 by blast
next
  show "\<forall>cs. collapsed_solutions solutions = Inr cs \<longrightarrow> (\<forall>c \<in> set cs. collapsed_ok c)"
    using collapsed_solutions_ok by blast
qed

theorem minimization_idempotent_witness:
  "reduce_minifySolution Initial
     [[Node ''T'' (Some [[Node ''P'' (Some [[Node ''A'' None]]), Node ''A'' None, Node ''C'' None]])]]
    = Inr (Solution 3 3 3 [Requirement ''T'' 3 (Some (Solution 2 4 (4 / 3)
        [Requirement ''P'' 2 (Some (Solution 1 1 1 [Requirement ''A'' 1 None])),
         Requirement ''A'' 1 None, Requirement ''C'' 1 None]))])
   \<and> reduce_minifySolution
     (Solution 3 3 3 [Requirement ''T'' 3 (Some (Solution 2 4 (4 / 3)
        [Requirement ''P'' 2 (Some (Solution 1 1 1 [Requirement ''A'' 1 None])),
         Requirement ''A'' 1 None, Requirement ''C'' 1 None]))])
     [[Node ''T'' (Some [[Node ''P'' (Some [[Node ''A'' None]]), Node ''A'' None, Node ''C'' None]])]]
    = Inr (Solution 3 3 3 [Requirement ''T'' 3 (Some (Solution 2 4 (4 / 3)
        [Requirement ''P'' 2 (Some (Solution 1 1 1 [Requirement ''A'' 1 None])),
         Requirement ''A'' 1 None, Requirement ''C'' 1 None]))])
   \<and> map_sum id fst (pruneSubsets (Requirement ''T'' 3 (Some (Solution 2 4 (4 / 3)
        [Requirement ''P'' 2 (Some (Solution 1 1 1 [Requirement ''A'' 1 None])),
         Requirement ''A'' 1 None, Requirement ''C'' 1 None]))) Map.empty)
    = Inr (Requirement ''T'' 3 (Some (Solution 2 4 (4 / 3)
        [Requirement ''P'' 2 (Some (Solution 1 1 1 [Requirement ''A'' 1 None])),
         Requirement ''C'' 1 None])))
   \<and> map_sum id fst (pruneSubsets (Requirement ''T'' 3 (Some (Solution 2 4 (4 / 3)
        [Requirement ''P'' 2 (Some (Solution 1 1 1 [Requirement ''A'' 1 None])),
         Requirement ''C'' 1 None]))) Map.empty)
    = Inr (Requirement ''T'' 3 (Some (Solution 2 4 (4 / 3)
        [Requirement ''P'' 2 (Some (Solution 1 1 1 [Requirement ''A'' 1 None])),
         Requirement ''C'' 1 None])))
   \<and> collapsed_solutions
     [[Node ''T'' (Some [[Node ''P'' (Some [[Node ''A'' None]]), Node ''A'' None, Node ''C'' None]])]]
    = Inr [CNode [''T''] (Some [CNode [''P'', ''A''] None, CNode [''C''] None])]
   \<and> collapsed_ok (CNode [''T''] (Some [CNode [''P'', ''A''] None, CNode [''C''] None]))"
proof -
  let ?locks = "[[Node ''T'' (Some [[Node ''P'' (Some [[Node ''A'' None]]), Node ''A'' None, Node ''C'' None]])]]"
  let ?T = "Requirement ''T'' 3 (Some (Solution 2 4 (4 / 3)
        [Requirement ''P'' 2 (Some (Solution 1 1 1 [Requirement ''A'' 1 None])),
         Requirement ''A'' 1 None, Requirement ''C'' 1 None]))"
  have l: "?locks \<noteq> [] \<and> (\<forall>lock \<in> set ?locks. \<exists>c. minifySolution Initial lock = Inr c)"
    by (simp add: replaces_def Let_def)
  have c: "complete ?T \<and> consistent ?T"
    by (simp add: complete_def consistent_def)
  have s: "collapsed_solutions ?locks
        = Inr [CNode [''T''] (Some [CNode [''P'', ''A''] None, CNode [''C''] None])]"
    by (simp add: collapsed_solutions_def collapseSolution_def replaces_def Let_def)
  show ?thesis
    using minimization_idempotent [of ?locks ?T ?locks] l c s
    by (simp add: replaces_def Let_def)
qed

text \<open>
  C7 as stated fails where the same item stands on nodes with different abilities: the
  tree that \<open>pruneSubsets\<close> returns for the tree below still holds the requirement \<open>Z\<close>,
  and pruning that tree once more removes it.
\<close>

theorem pruneSubsets_twice_counterexample:
  "reduce_minifySolution Initial
     [[Node ''T'' (Some [[
         Node ''N0'' (Some [[Node ''N1'' (Some [[Node ''N2'' (Some [[Node ''N3'' None]])]])]]),
         Node ''J'' (Some [[Node ''A'' None,
                            Node ''B'' (Some [[Node ''A'' (Some [[Node ''Z'' None]])]])]]),
         Node ''Z'' None]])]]
     = Inr (Solution 5 5 5 [Requirement ''T'' 5 (Some (Solution 4 9 3
         [Requirement ''N0'' 4 (Some (Solution 3 3 3
            [Requirement ''N1'' 3 (Some (Solution 2 2 2
               [Requirement ''N2'' 2 (Some (Solution 1 1 1 [Requirement ''N3'' 1 None]))]))])),
          Requirement ''J'' 4 (Some (Solution 3 4 2
            [Requirement ''A'' 1 None,
             Requirement ''B'' 3 (Some (Solution 2 2 2
               [Requirement ''A'' 2 (Some (Solution 1 1 1 [Requirement ''Z'' 1 None]))]))])),
          Requirement ''Z'' 1 None]))])
   \<and> map_sum id fst (pruneSubsets (Requirement ''T'' 5 (Some (Solution 4 9 3
         [Requirement ''N0'' 4 (Some (Solution 3 3 3
            [Requirement ''N1'' 3 (Some (Solution 2 2 2
               [Requirement ''N2'' 2 (Some (Solution 1 1 1 [Requirement ''N3'' 1 None]))]))])),
          Requirement ''J'' 4 (Some (Solution 3 4 2
            [Requirement ''A'' 1 None,
             Requirement ''B'' 3 (Some (Solution 2 2 2
               [Requirement ''A'' 2 (Some (Solution 1 1 1 [Requirement ''Z'' 1 None]))]))])),
          Requirement ''Z'' 1 None]))) Map.empty)
     = Inr (Requirement ''T'' 5 (Some (Solution 4 9 3
         [Requirement ''N0'' 4 (Some (Solution 3 3 3
            [Requirement ''N1'' 3 (Some (Solution 2 2 2
               [Requirement ''N2'' 2 (Some (Solution 1 1 1 [Requirement ''N3'' 1 None]))]))])),
          Requirement ''J'' 4 (Some (Solution 3 4 2
            [Requirement ''B'' 3 (Some (Solution 2 2 2
               [Requirement ''A'' 2 (Some (Solution 1 1 1 [Requirement ''Z'' 1 None]))]))])),
          Requirement ''Z'' 1 None])))
   \<and> map_sum id fst (pruneSubsets (Requirement ''T'' 5 (Some (Solution 4 9 3
         [Requirement ''N0'' 4 (Some (Solution 3 3 3
            [Requirement ''N1'' 3 (Some (Solution 2 2 2
               [Requirement ''N2'' 2 (Some (Solution 1 1 1 [Requirement ''N3'' 1 None]))]))])),
          Requirement ''J'' 4 (Some (Solution 3 4 2
            [Requirement ''B'' 3 (Some (Solution 2 2 2
               [Requirement ''A'' 2 (Some (Solution 1 1 1 [Requirement ''Z'' 1 None]))]))])),
          Requirement ''Z'' 1 None]))) Map.empty)
     = Inr (Requirement ''T'' 5 (Some (Solution 4 9 3
         [Requirement ''N0'' 4 (Some (Solution 3 3 3
            [Requirement ''N1'' 3 (Some (Solution 2 2 2
               [Requirement ''N2'' 2 (Some (Solution 1 1 1 [Requirement ''N3'' 1 None]))]))])),
          Requirement ''J'' 4 (Some (Solution 3 4 2
            [Requirement ''B'' 3 (Some (Solution 2 2 2
               [Requirement ''A'' 2 (Some (Solution 1 1 1 [Requirement ''Z'' 1 None]))]))]))])))"
  by (simp add: replaces_def Let_def)

end
